theory Spec2Isabelle
  imports Main
begin

section \<open>Chains of job wrappers (cron/chain.go)\<close>

text \<open>
  A \<open>JobWrapper\<close> is a Go function \<open>func(Job) Job\<close>. Applying one may allocate private
  synchronisation state (a mutex, a channel), so the model threads a heap \<open>'h\<close> through
  every application: a wrapper takes the job and the heap and returns the decorated job
  and the heap after its allocations.
\<close>

type_synonym ('j, 'h) JobWrapper = "'j \<Rightarrow> 'h \<Rightarrow> 'j \<times> 'h"

record ('j, 'h) Chain =
  wrappers :: "('j, 'h) JobWrapper list"

definition NewChain :: "('j, 'h) JobWrapper list \<Rightarrow> ('j, 'h) Chain" where
  "NewChain c = \<lparr>wrappers = c\<rparr>"

text \<open>
  The locals of \<open>Then\<close>: the receiver \<open>c\<close> (a copy of the chain), the job variable \<open>j\<close>
  that the loop reassigns, and the heap.
\<close>

record ('j, 'h) Then_locals =
  recv :: "('j, 'h) Chain"
  jobv :: 'j
  heapv :: 'h

text \<open>
  One iteration of \<open>for i := range c.wrappers\<close>:
  \<open>j = c.wrappers[len(c.wrappers)-i-1](j)\<close>.
\<close>

definition Then_body :: "nat \<Rightarrow> ('j, 'h) Then_locals \<Rightarrow> ('j, 'h) Then_locals" where
  "Then_body i l =
     (case (wrappers (recv l) ! (length (wrappers (recv l)) - i - 1)) (jobv l) (heapv l) of
        (j', h') \<Rightarrow> l\<lparr>jobv := j', heapv := h'\<rparr>)"

fun Then_loop :: "nat list \<Rightarrow> ('j, 'h) Then_locals \<Rightarrow> ('j, 'h) Then_locals" where
  "Then_loop [] l = l"
| "Then_loop (i # is) l = Then_loop is (Then_body i l)"

definition Then_run :: "('j, 'h) Chain \<Rightarrow> 'j \<Rightarrow> 'h \<Rightarrow> ('j, 'h) Then_locals" where
  "Then_run c j h =
     Then_loop [0..<length (wrappers c)] \<lparr>recv = c, jobv = j, heapv = h\<rparr>"

definition Then :: "('j, 'h) Chain \<Rightarrow> 'j \<Rightarrow> 'h \<Rightarrow> 'j \<times> 'h" where
  "Then c j h = (let l = Then_run c j h in (jobv l, heapv l))"

text \<open>
  The nested application \<open>w1(w2(...wn(j)...))\<close> of the documentation, written as the
  specification words it: the innermost wrapper is applied first, the first wrapper of
  the sequence last.
\<close>

fun nested :: "('j, 'h) JobWrapper list \<Rightarrow> 'j \<Rightarrow> 'h \<Rightarrow> 'j \<times> 'h" where
  "nested [] j h = (j, h)"
| "nested (w # ws) j h = (case nested ws j h of (j', h') \<Rightarrow> w j' h')"

section \<open>Jobs, outcomes and the log\<close>

type_synonym tid = nat
type_synonym addr = nat
type_synonym logger = nat

text \<open>
  How a call of \<open>Run()\<close> ends: it returns, or it panics. The panic carries the value that
  \<open>recover()\<close> hands to a deferred function; \<open>None\<close> is the nil interface value (the value
  of \<open>panic(nil)\<close> where the runtime passes it on as it is).
\<close>

datatype 'v outcome = Normal | Panic "'v option"

text \<open>
  Modelled from the spec: the Job capability and the FuncJob adapter, which chain.go uses
  and another file declares: "a single zero-argument, no-return operation that performs
  side effects and may raise a fault". \<open>Prim\<close> is a job of the caller's, opaque to
  chain.go: an invocation of it starts, is in progress for some time, and ends with the
  outcome its environment decides (the \<open>fate\<close> of the invoking thread below). The other
  constructors are the closures that the three wrappers of chain.go return, with the
  variables each closure captures: the logger, the inner job, and the address of the
  mutex or of the channel allocated by the application of the wrapper.
\<close>

datatype job =
    Prim
  | RecoverJob logger job
  | DelayJob logger addr job
  | SkipJob logger addr job

datatype level = ErrorLevel | InfoLevel

datatype 'v arg = ArgValue 'v | ArgStack string | ArgDuration int

text \<open>
  Modelled from the spec: the logging capability (\<open>dlog.Logger\<close>, which chain.go uses and
  another package declares): "a formatted error-level record operation and a formatted
  informational-level record operation". A call of \<open>Errorf\<close> or \<open>Infof\<close> is the event
  \<open>EvLog\<close> with the logger, the level, the format string and the arguments.

  What an observer of an execution sees, in the order it happens: a thread calls
  \<open>Run()\<close> of a job, an opaque job ends in a thread, a thread acquires or releases a
  mutex, a logger gets a record.
\<close>

datatype 'v event =
    EvCall tid job
  | EvEnd tid "'v outcome"
  | EvAcquire tid addr
  | EvRelease tid addr
  | EvLog logger level string "'v arg list"

section \<open>The heap: mutexes and channels\<close>

text \<open>
  A \<open>chan struct{}\<close> with its capacity and its buffered elements; a \<open>sync.Mutex\<close> is
  its locked flag. A send blocks (\<open>None\<close>) on a full buffer, a receive inside a
  \<open>select\<close> with a \<open>default\<close> case is not ready (\<open>None\<close>) on an empty one.
\<close>

record chan =
  cap :: nat
  buf :: "unit list"

definition make_chan :: "nat \<Rightarrow> chan" where
  "make_chan n = \<lparr>cap = n, buf = []\<rparr>"

definition send :: "chan \<Rightarrow> unit \<Rightarrow> chan option" where
  "send ch v = (if length (buf ch) < cap ch then Some (ch\<lparr>buf := buf ch @ [v]\<rparr>) else None)"

definition recv_ready :: "chan \<Rightarrow> (unit \<times> chan) option" where
  "recv_ready ch = (case buf ch of [] \<Rightarrow> None | v # vs \<Rightarrow> Some (v, ch\<lparr>buf := vs\<rparr>))"

record store =
  mutexes :: "addr \<Rightarrow> bool"
  chans :: "addr \<Rightarrow> chan"
  next_mu :: addr
  next_ch :: addr

section \<open>The three wrappers\<close>

text \<open>\<open>Recover(logger)\<close> applied to \<open>j\<close>: a closure over \<open>logger\<close> and \<open>j\<close>; no allocation.\<close>

definition Recover :: "logger \<Rightarrow> (job, store) JobWrapper" where
  "Recover lg j h = (RecoverJob lg j, h)"

text \<open>
  \<open>DelayIfStillRunning(logger)\<close> applied to \<open>j\<close>: \<open>var mu sync.Mutex\<close> allocates a new,
  unlocked mutex that the closure captures.
\<close>

definition DelayIfStillRunning :: "logger \<Rightarrow> (job, store) JobWrapper" where
  "DelayIfStillRunning lg j h =
     (let a = next_mu h in
      (DelayJob lg a j, h\<lparr>mutexes := (mutexes h)(a := False), next_mu := a + 1\<rparr>))"

text \<open>
  \<open>SkipIfStillRunning(logger)\<close> applied to \<open>j\<close>: \<open>make(chan struct{}, 1)\<close> allocates a
  channel of capacity one, and \<open>ch <- struct{}{}\<close> puts the token in. The send on the
  empty buffer of capacity one does not block (\<open>send_make_chan\<close> below), so the second
  branch of the case, a wrapper that never returns, is never taken.
\<close>

definition SkipIfStillRunning :: "logger \<Rightarrow> (job, store) JobWrapper" where
  "SkipIfStillRunning lg j h =
     (let c = next_ch h in
      (case send (make_chan 1) () of
         Some ch \<Rightarrow> (SkipJob lg c j, h\<lparr>chans := (chans h)(c := ch), next_ch := c + 1\<rparr>)
       | None \<Rightarrow> (SkipJob lg c j, h\<lparr>chans := (chans h)(c := make_chan 1), next_ch := c + 1\<rparr>)))"

section \<open>Threads and the interleaving machine\<close>

text \<open>
  The deferred calls of a thread, innermost first: the handler of Recover
  (\<open>if r := recover(); r != nil { logger.Errorf(...) }\<close>), \<open>mu.Unlock()\<close> of
  DelayIfStillRunning, and \<open>ch <- v\<close> of SkipIfStillRunning.
\<close>

datatype frame = DeferRecover logger | DeferUnlock addr | DeferSend addr

text \<open>
  Where a thread is: about to call \<open>Run()\<close> of a job; inside the closure of
  DelayIfStillRunning at \<open>mu.Lock()\<close> with \<open>start\<close> read, or past it before
  \<open>time.Since(start)\<close>; inside an opaque job; or returning (or unwinding a panic) through
  its deferred calls.
\<close>

datatype 'v control =
    Enter job
  | LockWait logger addr job int
  | Locked logger addr job int
  | InPrim
  | Return "'v outcome"

record 'v thread =
  ctl :: "'v control"
  stack :: "frame list"
  fate :: "'v outcome"
  dump :: string

record 'v machine =
  heap :: store
  clock :: int
  threads :: "'v thread list"
  trace :: "'v event list"

text \<open>
  Durations are int64 nanoseconds. \<open>time.Since\<close> on monotonic readings subtracts and
  saturates at the ends of the int64 range.
\<close>

definition Minute :: int where
  "Minute = 60 * 1000000000"

definition Since :: "int \<Rightarrow> int \<Rightarrow> int" where
  "Since start now =
     (let d = now - start in
      if d > 9223372036854775807 then 9223372036854775807
      else if d < - 9223372036854775808 then - 9223372036854775808
      else d)"

definition panic_format :: string where
  "panic_format = ''panic: stack %v'' @ [CHR 0x0A] @ ''%s'' @ [CHR 0x0A]"

definition recovered :: "'v outcome \<Rightarrow> 'v option" where
  "recovered out = (case out of Normal \<Rightarrow> None | Panic r \<Rightarrow> r)"

definition set_thread :: "tid \<Rightarrow> 'v control \<Rightarrow> frame list \<Rightarrow> 'v machine \<Rightarrow> 'v machine" where
  "set_thread t c st s = s\<lparr>threads := (threads s)[t := (threads s ! t)\<lparr>ctl := c, stack := st\<rparr>]\<rparr>"

definition emit :: "'v event list \<Rightarrow> 'v machine \<Rightarrow> 'v machine" where
  "emit es s = s\<lparr>trace := trace s @ es\<rparr>"

definition set_mutex :: "addr \<Rightarrow> bool \<Rightarrow> 'v machine \<Rightarrow> 'v machine" where
  "set_mutex a b s = s\<lparr>heap := (heap s)\<lparr>mutexes := (mutexes (heap s))(a := b)\<rparr>\<rparr>"

definition set_chan :: "addr \<Rightarrow> chan \<Rightarrow> 'v machine \<Rightarrow> 'v machine" where
  "set_chan c ch s = s\<lparr>heap := (heap s)\<lparr>chans := (chans (heap s))(c := ch)\<rparr>\<rparr>"

text \<open>
  One atomic step of thread \<open>t\<close>, by its control point and its deferred calls. \<open>None\<close>:
  the thread cannot move in this state (it waits for the mutex or for room in the
  channel, it has returned from its outermost call, or the runtime has stopped the
  program at an unlock of an unlocked mutex). The equations, in order:
  \<^item> an opaque job starts, and later ends with the fate of this invocation;
  \<^item> Recover (lines 44 to 51): \<open>defer func() {...}()\<close>, then \<open>j.Run()\<close>;
  \<^item> DelayIfStillRunning (lines 61 to 69): \<open>start := time.Now()\<close>; then \<open>mu.Lock()\<close>,
    which waits while the mutex is locked, and \<open>defer mu.Unlock()\<close>; then
    \<open>if dur := time.Since(start); dur > time.Minute { logger.Infof(...) }\<close> and \<open>j.Run()\<close>;
  \<^item> SkipIfStillRunning (lines 79 to 87): the \<open>select\<close> receives the token when the
    buffer has it, defers \<open>ch <- v\<close> and calls \<open>j.Run()\<close>; otherwise its \<open>default\<close>
    case logs \<open>Infof("skip")\<close> and the closure returns;
  \<^item> a call that ends runs its innermost deferred call: the handler of Recover (line 46:
    \<open>recover()\<close> stops a panic and returns its value, nil when there is none, and the
    record is logged when the value is not nil), \<open>mu.Unlock()\<close>, or \<open>ch <- v\<close>, which
    waits while the buffer is full; the last two pass the outcome on.
\<close>

fun step_at ::
  "tid \<Rightarrow> 'v control \<Rightarrow> frame list \<Rightarrow> 'v thread \<Rightarrow> 'v machine \<Rightarrow> 'v machine option" where
  "step_at t (Enter Prim) st th s =
     Some (emit [EvCall t Prim] (set_thread t InPrim st s))"
| "step_at t InPrim st th s =
     Some (emit [EvEnd t (fate th)] (set_thread t (Return (fate th)) st s))"
| "step_at t (Enter (RecoverJob lg j)) st th s =
     Some (emit [EvCall t (RecoverJob lg j)] (set_thread t (Enter j) (DeferRecover lg # st) s))"
| "step_at t (Enter (DelayJob lg a j)) st th s =
     Some (emit [EvCall t (DelayJob lg a j)] (set_thread t (LockWait lg a j (clock s)) st s))"
| "step_at t (LockWait lg a j start) st th s =
     (if mutexes (heap s) a then None
      else Some (emit [EvAcquire t a]
                  (set_thread t (Locked lg a j start) (DeferUnlock a # st)
                    (set_mutex a True s))))"
| "step_at t (Locked lg a j start) st th s =
     (let dur = Since start (clock s) in
      Some (emit (if dur > Minute
                  then [EvLog lg InfoLevel ''delay duration=%v'' [ArgDuration dur]]
                  else [])
             (set_thread t (Enter j) st s)))"
| "step_at t (Enter (SkipJob lg c j)) st th s =
     (case recv_ready (chans (heap s) c) of
        Some (v, ch) \<Rightarrow>
          Some (emit [EvCall t (SkipJob lg c j)]
                 (set_thread t (Enter j) (DeferSend c # st) (set_chan c ch s)))
      | None \<Rightarrow>
          Some (emit [EvCall t (SkipJob lg c j), EvLog lg InfoLevel ''skip'' []]
                 (set_thread t (Return Normal) st s)))"
| "step_at t (Return out) [] th s = None"
| "step_at t (Return out) (DeferRecover lg # st) th s =
     Some (emit (case recovered out of
                   Some r \<Rightarrow> [EvLog lg ErrorLevel panic_format [ArgValue r, ArgStack (dump th)]]
                 | None \<Rightarrow> [])
             (set_thread t (Return Normal) st s))"
| "step_at t (Return out) (DeferUnlock a # st) th s =
     (if mutexes (heap s) a
      then Some (emit [EvRelease t a] (set_thread t (Return out) st (set_mutex a False s)))
      else None)"
| "step_at t (Return out) (DeferSend c # st) th s =
     (case send (chans (heap s) c) () of
        Some ch \<Rightarrow> Some (set_thread t (Return out) st (set_chan c ch s))
      | None \<Rightarrow> None)"

definition step :: "tid \<Rightarrow> 'v machine \<Rightarrow> 'v machine option" where
  "step t s =
     (if t < length (threads s)
      then step_at t (ctl (threads s ! t)) (stack (threads s ! t)) (threads s ! t) s
      else None)"

text \<open>
  What the environment does next: it lets a thread take a step (a thread that cannot
  move stays where it is), or time passes.
\<close>

datatype action = Step tid | Tick nat

definition exec :: "action \<Rightarrow> 'v machine \<Rightarrow> 'v machine" where
  "exec a s =
     (case a of
        Step t \<Rightarrow> (case step t s of Some s' \<Rightarrow> s' | None \<Rightarrow> s)
      | Tick d \<Rightarrow> s\<lparr>clock := clock s + int d\<rparr>)"

fun run :: "action list \<Rightarrow> 'v machine \<Rightarrow> 'v machine" where
  "run [] s = s"
| "run (a # as) s = run as (exec a s)"

text \<open>
  An invocation that has not started: the thread is about to call \<open>Run()\<close> of the
  job. \<open>registered w j h now fs\<close> is the machine after the wrapper \<open>w\<close> was applied once
  to \<open>j\<close> on heap \<open>h\<close> (the registration of the job), with one thread for each
  invocation the scheduler will issue; \<open>fs\<close> gives each its fate and its stack dump.
\<close>

definition invocation :: "job \<Rightarrow> 'v outcome \<Rightarrow> string \<Rightarrow> 'v thread" where
  "invocation j out d = \<lparr>ctl = Enter j, stack = [], fate = out, dump = d\<rparr>"

definition start_machine :: "store \<Rightarrow> int \<Rightarrow> 'v thread list \<Rightarrow> 'v machine" where
  "start_machine h now ts = \<lparr>heap = h, clock = now, threads = ts, trace = []\<rparr>"

definition registered ::
  "(job, store) JobWrapper \<Rightarrow> job \<Rightarrow> store \<Rightarrow> int \<Rightarrow> ('v outcome \<times> string) list \<Rightarrow> 'v machine" where
  "registered w j h now fs =
     (case w j h of
        (wj, h') \<Rightarrow> start_machine h' now (map (\<lambda>(out, d). invocation wj out d) fs))"

definition finished :: "'v thread \<Rightarrow> bool" where
  "finished th = (case ctl th of Return out \<Rightarrow> stack th = [] | _ \<Rightarrow> False)"

text \<open>
  The deferred calls \<open>fr\<close> pending in all threads together, and the tokens of channel
  \<open>c\<close>: those in its buffer and those a thread took and has still to send back.
\<close>

definition holding :: "frame \<Rightarrow> 'v machine \<Rightarrow> nat" where
  "holding fr s = sum_list (map (\<lambda>th. count_list (stack th) fr) (threads s))"

definition tokens :: "addr \<Rightarrow> 'v machine \<Rightarrow> nat" where
  "tokens c s = length (buf (chans (heap s) c)) + holding (DeferSend c) s"

definition lock_balance :: "addr \<Rightarrow> 'v machine \<Rightarrow> bool" where
  "lock_balance a s = (holding (DeferUnlock a) s = (if mutexes (heap s) a then 1 else 0))"

text \<open>
  A thread is inside the critical section of mutex \<open>a\<close> (between \<open>mu.Lock()\<close> and the
  deferred \<open>mu.Unlock()\<close>, where the inner job runs), or holds the token of channel \<open>c\<close>.
\<close>

definition inside :: "addr \<Rightarrow> 'v thread \<Rightarrow> bool" where
  "inside a th = (DeferUnlock a \<in> set (stack th))"

definition has_token :: "addr \<Rightarrow> 'v thread \<Rightarrow> bool" where
  "has_token c th = (DeferSend c \<in> set (stack th))"

text \<open>
  Reading a trace for the mutex \<open>a\<close> that guards the job \<open>j\<close>: \<open>owner_after\<close> is the
  thread that holds the mutex at the end of the trace. \<open>serial\<close> says that the
  invocations take turns: the mutex is acquired only when no thread holds it and released
  only by the thread that holds it, and a thread calls \<open>j\<close>, and ends an opaque job, only
  while it is the holder.
\<close>

fun owner_step :: "addr \<Rightarrow> tid option \<Rightarrow> 'v event \<Rightarrow> tid option" where
  "owner_step a own (EvAcquire t b) = (if b = a then Some t else own)"
| "owner_step a own (EvRelease t b) = (if b = a then None else own)"
| "owner_step a own (EvCall t j) = own"
| "owner_step a own (EvEnd t out) = own"
| "owner_step a own (EvLog lg lv f as) = own"

fun turn_ok :: "addr \<Rightarrow> job \<Rightarrow> tid option \<Rightarrow> 'v event \<Rightarrow> bool" where
  "turn_ok a j own (EvAcquire t b) = (if b = a then own = None else True)"
| "turn_ok a j own (EvRelease t b) = (if b = a then own = Some t else True)"
| "turn_ok a j own (EvCall t j') = (if j' = j then own = Some t else True)"
| "turn_ok a j own (EvEnd t out) = (own = Some t)"
| "turn_ok a j own (EvLog lg lv f as) = True"

fun owner_after :: "addr \<Rightarrow> tid option \<Rightarrow> 'v event list \<Rightarrow> tid option" where
  "owner_after a own [] = own"
| "owner_after a own (e # es) = owner_after a (owner_step a own e) es"

fun serial :: "addr \<Rightarrow> job \<Rightarrow> tid option \<Rightarrow> 'v event list \<Rightarrow> bool" where
  "serial a j own [] = True"
| "serial a j own (e # es) = (turn_ok a j own e \<and> serial a j (owner_step a own e) es)"

text \<open>
  The invariants of the executions. \<open>lock_view\<close>: the mutex is locked exactly when the
  trace has a holder, and that holder is the one thread inside the critical section.
  \<open>delay_phase\<close>: where an invocation of \<open>DelayJob lg a j\<close> can be: before the lock, just
  past it, in the inner job (its deferred unlock at the bottom of its stack) or back from
  it, and in the last two cases it has called the inner job.
\<close>

definition lock_view :: "addr \<Rightarrow> 'v machine \<Rightarrow> bool" where
  "lock_view a s =
     (lock_balance a s \<and>
      (mutexes (heap s) a = (owner_after a None (trace s) \<noteq> None)) \<and>
      (\<forall>t < length (threads s).
         inside a (threads s ! t) = (owner_after a None (trace s) = Some t)))"

definition running :: "addr \<Rightarrow> job \<Rightarrow> tid \<Rightarrow> 'v machine \<Rightarrow> bool" where
  "running a j t s =
     (stack (threads s ! t) \<noteq> [] \<and> last (stack (threads s ! t)) = DeferUnlock a \<and>
      EvCall t j \<in> set (trace s))"

definition delay_phase :: "logger \<Rightarrow> addr \<Rightarrow> job \<Rightarrow> tid \<Rightarrow> 'v machine \<Rightarrow> bool" where
  "delay_phase lg a j t s =
     (running a j t s \<or>
      (case ctl (threads s ! t) of
         Enter j' \<Rightarrow> (j' = DelayJob lg a j \<and> stack (threads s ! t) = []) \<or>
                     (j' = j \<and> stack (threads s ! t) = [DeferUnlock a])
       | LockWait lg' a' j' start \<Rightarrow> lg' = lg \<and> a' = a \<and> j' = j \<and> stack (threads s ! t) = []
       | Locked lg' a' j' start \<Rightarrow>
           lg' = lg \<and> a' = a \<and> j' = j \<and> stack (threads s ! t) = [DeferUnlock a]
       | InPrim \<Rightarrow> False
       | Return out \<Rightarrow> stack (threads s ! t) = [] \<and> EvCall t j \<in> set (trace s)))"

definition delay_inv :: "logger \<Rightarrow> addr \<Rightarrow> job \<Rightarrow> 'v machine \<Rightarrow> bool" where
  "delay_inv lg a j s =
     (lock_view a s \<and> serial a j None (trace s) \<and>
      (\<forall>t < length (threads s). delay_phase lg a j t s))"

text \<open>
  For an opaque inner job: where an invocation of \<open>DelayJob lg a Prim\<close> can be, the
  number of steps it has still to take, and the steps all invocations together have
  still to take.
\<close>

definition prim_phase :: "logger \<Rightarrow> addr \<Rightarrow> 'v thread \<Rightarrow> bool" where
  "prim_phase lg a th =
     (case ctl th of
        Enter j' \<Rightarrow> (j' = DelayJob lg a Prim \<and> stack th = []) \<or>
                    (j' = Prim \<and> stack th = [DeferUnlock a])
      | LockWait lg' a' j' start \<Rightarrow> lg' = lg \<and> a' = a \<and> j' = Prim \<and> stack th = []
      | Locked lg' a' j' start \<Rightarrow> lg' = lg \<and> a' = a \<and> j' = Prim \<and> stack th = [DeferUnlock a]
      | InPrim \<Rightarrow> stack th = [DeferUnlock a]
      | Return out \<Rightarrow> stack th = [] \<or> stack th = [DeferUnlock a])"

definition remaining :: "'v thread \<Rightarrow> nat" where
  "remaining th =
     (case ctl th of
        Enter j' \<Rightarrow> (if stack th = [] then 6 else 3)
      | LockWait lg' a' j' start \<Rightarrow> 5
      | Locked lg' a' j' start \<Rightarrow> 4
      | InPrim \<Rightarrow> 2
      | Return out \<Rightarrow> length (stack th))"

definition work :: "'v machine \<Rightarrow> nat" where
  "work s = sum_list (map remaining (threads s))"

definition prim_inv :: "logger \<Rightarrow> addr \<Rightarrow> 'v machine \<Rightarrow> bool" where
  "prim_inv lg a s =
     (lock_view a s \<and> (\<forall>t < length (threads s). prim_phase lg a (threads s ! t)))"

text \<open>A store with nothing allocated, for the concrete executions below.\<close>

definition empty_store :: store where
  "empty_store = \<lparr>mutexes = (\<lambda>a. False), chans = (\<lambda>c. make_chan 0), next_mu = 0, next_ch = 0\<rparr>"

text \<open>
  The error-level records of a trace, and a concrete execution: one invocation of an
  opaque job wrapped by Recover that panics with the nil value, run until it returns.
\<close>

fun is_error_record :: "'v event \<Rightarrow> bool" where
  "is_error_record (EvLog lg ErrorLevel f as) = True"
| "is_error_record e = False"

definition nil_panic_run :: "unit machine" where
  "nil_panic_run =
     run [Step 0, Step 0, Step 0, Step 0]
       (registered (Recover 0) Prim empty_store 0 [(Panic None, '''')])"

section \<open>Properties of Then\<close>

lemma send_make_chan: "send (make_chan 1) () = Some \<lparr>cap = 1, buf = [()]\<rparr>"
  by (simp add: send_def make_chan_def)

lemma Then_loop_append:
  "Then_loop (xs @ ys) l = Then_loop ys (Then_loop xs l)"
  by (induction xs arbitrary: l) simp_all

lemma Then_body_recv: "recv (Then_body i l) = recv l"
  by (simp add: Then_body_def split: prod.splits)

lemma Then_loop_recv: "recv (Then_loop xs l) = recv l"
  by (induction xs arbitrary: l) (simp_all add: Then_body_recv)

lemma Then_loop_prefix:
  "m \<le> length (wrappers c) \<Longrightarrow>
   Then_loop [0..<m] \<lparr>recv = c, jobv = j, heapv = h\<rparr> =
     (case nested (drop (length (wrappers c) - m) (wrappers c)) j h of
        (j', h') \<Rightarrow> \<lparr>recv = c, jobv = j', heapv = h'\<rparr>)"
proof (induction m)
  case 0
  then show ?case by simp
next
  case (Suc m)
  let ?ws = "wrappers c"
  let ?n = "length ?ws"
  from Suc.prems have lt: "?n - Suc m < ?n" and le: "m \<le> ?n" by simp_all
  have idx: "?n - m - 1 = ?n - Suc m" by simp
  have split: "drop (?n - Suc m) ?ws = ?ws ! (?n - Suc m) # drop (?n - m) ?ws"
  proof -
    have "Suc (?n - Suc m) = ?n - m" using Suc.prems by simp
    with Cons_nth_drop_Suc [OF lt] show ?thesis by simp
  qed
  obtain j1 h1 where n1: "nested (drop (?n - m) ?ws) j h = (j1, h1)"
    by (cases "nested (drop (?n - m) ?ws) j h")
  show ?case
    using Suc.IH [OF le] n1
    by (simp add: Then_loop_append Then_body_def idx split)
qed

lemma nested_heap_unchanged:
  "(\<And>w j h. w \<in> set ws \<Longrightarrow> snd (w j h) = h) \<Longrightarrow> snd (nested ws j h) = h"
proof (induction ws arbitrary: j h)
  case Nil
  then show ?case by simp
next
  case (Cons w ws)
  obtain j1 h1 where n1: "nested ws j h = (j1, h1)" by (cases "nested ws j h")
  have "h1 = h" using Cons.IH [of j h] Cons.prems n1 by simp
  moreover have "snd (w j1 h1) = h1" using Cons.prems [of w j1 h1] by simp
  ultimately show ?case using n1 by simp
qed

text \<open>
  C2. For every sequence of wrappers \<open>[w1, ..., wn]\<close> (of any length) and every job
  \<open>j\<close>, \<open>Then\<close> returns the nested application \<open>w1(w2(...wn(j)...))\<close>: the first wrapper
  of the sequence is the outermost layer. The heap after \<open>Then\<close> is the heap after the
  nested application too.
\<close>

theorem C2_then_is_nested:
  "Then c j h = nested (wrappers c) j h"
proof -
  have "Then_run c j h =
      (case nested (wrappers c) j h of (j', h') \<Rightarrow> \<lparr>recv = c, jobv = j', heapv = h'\<rparr>)"
    using Then_loop_prefix [of "length (wrappers c)" c j h] by (simp add: Then_run_def)
  then show ?thesis
    by (simp add: Then_def split: prod.splits)
qed

text \<open>
  C8. A chain with no wrappers returns the job it is given and leaves the heap as it is.
  For every chain, \<open>Then\<close> leaves its receiver, the wrapper sequence, unchanged, and it
  allocates nothing of its own: when no wrapper of the chain changes the heap, the heap
  after \<open>Then\<close> is the heap before it. (\<open>Then\<close> is a function of the chain, the job and
  the heap, so equal arguments give equal results.)
\<close>

theorem C8_then_identity_and_pure:
  "Then \<lparr>wrappers = []\<rparr> j h = (j, h) \<and>
   Then (NewChain []) j h = (j, h) \<and>
   recv (Then_run c j h) = c \<and>
   ((\<forall>w \<in> set (wrappers c). \<forall>j' h'. snd (w j' h') = h') \<longrightarrow> snd (Then c j h) = h)"
proof -
  have empty: "Then \<lparr>wrappers = []\<rparr> j h = (j, h)"
    by (simp add: Then_def Then_run_def)
  have kept: "recv (Then_run c j h) = c"
    by (simp add: Then_run_def Then_loop_recv)
  have "Then_run c j h =
      (case nested (wrappers c) j h of (j', h') \<Rightarrow> \<lparr>recv = c, jobv = j', heapv = h'\<rparr>)"
    using Then_loop_prefix [of "length (wrappers c)" c j h] by (simp add: Then_run_def)
  then have "snd (Then c j h) = snd (nested (wrappers c) j h)"
    by (simp add: Then_def split: prod.splits)
  then have pure: "snd (Then c j h) = h"
    if "\<forall>w \<in> set (wrappers c). \<forall>j' h'. snd (w j' h') = h'"
    using that nested_heap_unchanged [of "wrappers c" j h] by simp
  from empty kept pure show ?thesis by (simp add: NewChain_def)
qed

theorem C8_witness:
  "Then \<lparr>wrappers = [Recover 0, Recover 1]\<rparr> Prim empty_store =
     (RecoverJob 0 (RecoverJob 1 Prim), empty_store) \<and>
   snd (Then \<lparr>wrappers = [Recover 0, Recover 1]\<rparr> Prim empty_store) = empty_store \<and>
   recv (Then_run \<lparr>wrappers = [Recover 0, Recover 1]\<rparr> Prim empty_store) =
     \<lparr>wrappers = [Recover 0, Recover 1]\<rparr>"
  using C8_then_identity_and_pure [where c = "\<lparr>wrappers = [Recover 0, Recover 1]\<rparr>"
      and j = Prim and h = empty_store]
  by (simp add: Recover_def Then_def Then_run_def Then_body_def upt_rec)

section \<open>The machine: how the state changes\<close>

lemma sum_list_map_update:
  "t < length xs \<Longrightarrow>
   sum_list (map f (xs[t := y])) + f (xs ! t) = sum_list (map f xs) + (f y :: nat)"
proof (induction xs arbitrary: t)
  case Nil
  then show ?case by simp
next
  case (Cons x xs)
  then show ?case by (cases t) (simp_all add: algebra_simps)
qed

lemma threads_simps [simp]:
  "threads (emit es s) = threads s"
  "threads (set_mutex a b s) = threads s"
  "threads (set_chan c ch s) = threads s"
  "length (threads (set_thread t k st s)) = length (threads s)"
  by (simp_all add: emit_def set_mutex_def set_chan_def set_thread_def)

lemma heap_simps [simp]:
  "heap (emit es s) = heap s"
  "heap (set_thread t k st s) = heap s"
  "mutexes (heap (set_mutex a b s)) = (mutexes (heap s))(a := b)"
  "chans (heap (set_mutex a b s)) = chans (heap s)"
  "chans (heap (set_chan c ch s)) = (chans (heap s))(c := ch)"
  "mutexes (heap (set_chan c ch s)) = mutexes (heap s)"
  by (simp_all add: emit_def set_mutex_def set_chan_def set_thread_def)

lemma trace_simps [simp]:
  "trace (emit es s) = trace s @ es"
  "trace (set_thread t k st s) = trace s"
  "trace (set_mutex a b s) = trace s"
  "trace (set_chan c ch s) = trace s"
  by (simp_all add: emit_def set_mutex_def set_chan_def set_thread_def)

lemma clock_simps [simp]:
  "clock (emit es s) = clock s"
  "clock (set_thread t k st s) = clock s"
  "clock (set_mutex a b s) = clock s"
  "clock (set_chan c ch s) = clock s"
  by (simp_all add: emit_def set_mutex_def set_chan_def set_thread_def)

lemma thread_set_thread [simp]:
  "t < length (threads s) \<Longrightarrow>
   threads (set_thread t k st s) ! t' =
     (if t' = t then (threads s ! t)\<lparr>ctl := k, stack := st\<rparr> else threads s ! t')"
  by (simp add: set_thread_def)

lemma holding_set_thread:
  "t < length (threads s) \<Longrightarrow>
   holding fr (set_thread t c st s) + count_list (stack (threads s ! t)) fr =
   holding fr s + count_list st fr"
  using sum_list_map_update [of t "threads s" "\<lambda>th. count_list (stack th) fr"
      "(threads s ! t)\<lparr>ctl := c, stack := st\<rparr>"]
  by (simp add: holding_def set_thread_def)

lemma holding_simps [simp]:
  "holding fr (emit es s) = holding fr s"
  "holding fr (set_mutex a b s) = holding fr s"
  "holding fr (set_chan c ch s) = holding fr s"
  by (simp_all add: holding_def)

lemma holding_push:
  "t < length (threads s) \<Longrightarrow> stack (threads s ! t) = st \<Longrightarrow>
   holding fr (set_thread t k (f # st) s) = holding fr s + (if f = fr then 1 else 0)"
  using holding_set_thread [of t s fr k "f # st"] by (auto split: if_splits)

lemma holding_pop:
  "t < length (threads s) \<Longrightarrow> stack (threads s ! t) = f # st \<Longrightarrow>
   holding fr (set_thread t k st s) + (if f = fr then 1 else 0) = holding fr s"
  using holding_set_thread [of t s fr k st] by (auto split: if_splits)

lemma holding_same:
  "t < length (threads s) \<Longrightarrow> stack (threads s ! t) = st \<Longrightarrow>
   holding fr (set_thread t k st s) = holding fr s"
  using holding_set_thread [of t s fr k st] by simp

lemma count_le_holding:
  "t < length (threads s) \<Longrightarrow> count_list (stack (threads s ! t)) fr \<le> holding fr s"
  unfolding holding_def
  by (rule member_le_sum_list) (auto intro!: image_eqI [where x = "threads s ! t"])

lemma two_le_holding:
  assumes "t < length (threads s)" "t' < length (threads s)" "t \<noteq> t'"
  shows "count_list (stack (threads s ! t)) fr + count_list (stack (threads s ! t')) fr
           \<le> holding fr s"
proof -
  have "holding fr (set_thread t (ctl (threads s ! t)) [] s) + count_list (stack (threads s ! t)) fr
          = holding fr s"
    using holding_set_thread [of t s fr "ctl (threads s ! t)" "[]"] assms by simp
  moreover have "count_list (stack (threads (set_thread t (ctl (threads s ! t)) [] s) ! t')) fr
      \<le> holding fr (set_thread t (ctl (threads s ! t)) [] s)"
    by (rule count_le_holding) (use assms in simp)
  ultimately show ?thesis using assms by simp
qed

lemma step_at_tokens:
  assumes "step_at t k st th s = Some s'" and "t < length (threads s)"
    and "stack (threads s ! t) = st"
  shows "tokens c s' = tokens c s"
  using assms
proof (induction t k st th s rule: step_at.induct)
  case (7 t lg c' j st th s)
  then show ?case
    using holding_push [of t "set_chan c' ch s" st "DeferSend c" "Enter j" "DeferSend c'" for ch]
      holding_same [of t s st "DeferSend c" "Return Normal"]
    by (auto simp: tokens_def recv_ready_def split: list.splits)
next
  case (11 t out c' st th s)
  then show ?case
    using holding_pop [of t "set_chan c' ch s" "DeferSend c'" st "DeferSend c" "Return out" for ch]
    by (auto simp: tokens_def send_def split: if_splits)
next
  case (5 t lg a j start st th s)
  then show ?case
    using holding_push [of t "set_mutex a True s" st "DeferSend c" "Locked lg a j start" "DeferUnlock a"]
    by (auto simp: tokens_def split: if_splits)
next
  case (3 t lg j st th s)
  then show ?case
    using holding_push [of t s st "DeferSend c" "Enter j" "DeferRecover lg"]
    by (auto simp: tokens_def)
next
  case (9 t out lg st th s)
  then show ?case
    using holding_pop [of t s "DeferRecover lg" st "DeferSend c" "Return Normal"]
    by (auto simp: tokens_def)
next
  case (10 t out a st th s)
  then show ?case
    using holding_pop [of t "set_mutex a False s" "DeferUnlock a" st "DeferSend c" "Return out"]
    by (auto simp: tokens_def split: if_splits)
qed (auto simp: tokens_def holding_same Let_def)

lemma step_tokens: "step t s = Some s' \<Longrightarrow> tokens c s' = tokens c s"
  by (auto simp: step_def step_at_tokens split: if_splits)

lemma tick_simps [simp]:
  "heap (s\<lparr>clock := n\<rparr>) = heap s"
  "threads (s\<lparr>clock := n\<rparr>) = threads s"
  "trace (s\<lparr>clock := n\<rparr>) = trace s"
  "holding fr (s\<lparr>clock := n\<rparr>) = holding fr s"
  by (simp_all add: holding_def)

lemma exec_cases:
  obtains (moved) t s' where "a = Step t" "step t s = Some s'" "exec a s = s'"
  | (stayed) t where "a = Step t" "step t s = None" "exec a s = s"
  | (tick) d where "a = Tick d" "exec a s = s\<lparr>clock := clock s + int d\<rparr>"
  by (cases a; cases "step (case a of Step t \<Rightarrow> t | Tick d \<Rightarrow> 0) s") (auto simp: exec_def)

lemma exec_tokens: "tokens c (exec a s) = tokens c s"
  by (cases a s rule: exec_cases) (simp_all add: step_tokens, simp add: tokens_def)

lemma run_tokens: "tokens c (run as s) = tokens c s"
  by (induction as arbitrary: s) (simp_all add: exec_tokens)

lemma step_at_lock_balance:
  assumes "step_at t k st th s = Some s'" and "t < length (threads s)"
    and "stack (threads s ! t) = st" and "lock_balance a s"
  shows "lock_balance a s'"
  using assms
proof (induction t k st th s rule: step_at.induct)
  case (7 t lg c' j st th s)
  then show ?case
    using holding_push [of t "set_chan c' ch s" st "DeferUnlock a" "Enter j" "DeferSend c'" for ch]
      holding_same [of t s st "DeferUnlock a" "Return Normal"]
    by (auto simp: lock_balance_def recv_ready_def split: list.splits)
next
  case (11 t out c' st th s)
  then show ?case
    using holding_pop [of t "set_chan c' ch s" "DeferSend c'" st "DeferUnlock a" "Return out" for ch]
    by (auto simp: lock_balance_def send_def split: if_splits)
next
  case (5 t lg a' j start st th s)
  then show ?case
    using holding_push [of t "set_mutex a' True s" st "DeferUnlock a" "Locked lg a' j start" "DeferUnlock a'"]
    by (auto simp: lock_balance_def split: if_splits)
next
  case (3 t lg j st th s)
  then show ?case
    using holding_push [of t s st "DeferUnlock a" "Enter j" "DeferRecover lg"]
    by (auto simp: lock_balance_def)
next
  case (9 t out lg st th s)
  then show ?case
    using holding_pop [of t s "DeferRecover lg" st "DeferUnlock a" "Return Normal"]
    by (auto simp: lock_balance_def)
next
  case (10 t out a' st th s)
  then show ?case
    using holding_pop [of t "set_mutex a' False s" "DeferUnlock a'" st "DeferUnlock a" "Return out"]
    by (auto simp: lock_balance_def split: if_splits)
qed (auto simp: lock_balance_def holding_same Let_def)

lemma step_lock_balance: "step t s = Some s' \<Longrightarrow> lock_balance a s \<Longrightarrow> lock_balance a s'"
  by (auto simp: step_def step_at_lock_balance split: if_splits)

lemma exec_lock_balance: "lock_balance a s \<Longrightarrow> lock_balance a (exec x s)"
  by (cases x s rule: exec_cases) (simp_all add: step_lock_balance, simp add: lock_balance_def)

lemma run_lock_balance: "lock_balance a s \<Longrightarrow> lock_balance a (run as s)"
  by (induction as arbitrary: s) (simp_all add: exec_lock_balance)


lemma owner_after_append:
  "owner_after a own (es @ es') = owner_after a (owner_after a own es) es'"
  by (induction es arbitrary: own) simp_all

lemma serial_append:
  "serial a j own (es @ es') = (serial a j own es \<and> serial a j (owner_after a own es) es')"
  by (induction es arbitrary: own) auto

lemma top_only:
  assumes "lock_balance a s" "t < length (threads s)" "stack (threads s ! t) = DeferUnlock a # st"
  shows "DeferUnlock a \<notin> set st"
proof -
  have "count_list (DeferUnlock a # st) (DeferUnlock a) \<le> 1"
    using count_le_holding [OF assms(2), of "DeferUnlock a"] assms(1,3)
    by (simp add: lock_balance_def split: if_splits)
  then show ?thesis by (simp add: count_list_0_iff)
qed

lemma step_at_lock_view:
  assumes "step_at t k st th s = Some s'" and "t < length (threads s)"
    and "stack (threads s ! t) = st" and "lock_view a s"
  shows "lock_view a s'"
proof -
  have bal: "lock_balance a s'"
    using assms step_at_lock_balance [of t k st th s s' a] by (simp add: lock_view_def)
  have own: "(DeferUnlock a \<in> set st) = (owner_after a None (trace s) = Some t)"
    using assms by (auto simp: lock_view_def inside_def)
  show ?thesis
    using assms(1,2,3,4) bal own
  proof (induction t k st th s rule: step_at.induct)
    case (5 t lg a' j start st th s)
    then show ?case
      by (auto simp: lock_view_def owner_after_append inside_def split: if_splits)
  next
    case (10 t out a' st th s)
    have "a' = a \<Longrightarrow> DeferUnlock a \<notin> set st"
      using top_only [of a s t st] 10 by (simp add: lock_view_def)
    with 10 show ?case
      by (auto simp: lock_view_def owner_after_append inside_def split: if_splits)
  qed (auto simp: lock_view_def owner_after_append inside_def Let_def
        recv_ready_def send_def
        split: if_splits list.splits option.splits)
qed

lemma step_lock_view: "step t s = Some s' \<Longrightarrow> lock_view a s \<Longrightarrow> lock_view a s'"
  by (auto simp: step_def step_at_lock_view split: if_splits)

lemma exec_lock_view: "lock_view a s \<Longrightarrow> lock_view a (exec x s)"
  by (cases x s rule: exec_cases)
    (simp_all add: step_lock_view, simp add: lock_view_def lock_balance_def)

lemma run_lock_view: "lock_view a s \<Longrightarrow> lock_view a (run as s)"
  by (induction as arbitrary: s) (simp_all add: exec_lock_view)

lemma delay_phase_mono:
  assumes "threads s' ! t = threads s ! t" "set (trace s) \<subseteq> set (trace s')"
    "delay_phase lg a j t s"
  shows "delay_phase lg a j t s'"
  using assms
  by (cases "ctl (threads s ! t)") (auto simp: delay_phase_def running_def)

lemma step_at_other:
  assumes "step_at t k st th s = Some s'" and "t < length (threads s)" and "t' \<noteq> t"
  shows "threads s' ! t' = threads s ! t' \<and> set (trace s) \<subseteq> set (trace s')"
  using assms
  by (induction t k st th s rule: step_at.induct)
    (auto simp: Let_def split: if_splits option.splits)

lemma step_at_delay_phase_self:
  assumes "step_at t k st th s = Some s'" and "t < length (threads s)"
    and "stack (threads s ! t) = st" and "ctl (threads s ! t) = k"
    and "delay_phase lg a j t s"
  shows "delay_phase lg a j t s'"
  using assms
proof (induction t k st th s rule: step_at.induct)
  case (1 t st th s)
  then show ?case by (auto simp: delay_phase_def running_def)
next
  case (2 t st th s)
  then show ?case by (auto simp: delay_phase_def running_def)
next
  case (3 t lg j st th s)
  then show ?case by (auto simp: delay_phase_def running_def)
next
  case (4 t lg a j st th s)
  then show ?case by (auto simp: delay_phase_def running_def)
next
  case (5 t lg a j start st th s)
  then show ?case by (auto simp: delay_phase_def running_def split: if_splits)
next
  case (6 t lg a j start st th s)
  then show ?case by (auto simp: delay_phase_def running_def Let_def)
next
  case (7 t lg c j st th s)
  then show ?case by (auto simp: delay_phase_def running_def split: option.splits)
next
  case (8 t out th s)
  then show ?case by simp
next
  case (9 t out lg st th s)
  then show ?case by (auto simp: delay_phase_def running_def)
next
  case (10 t out a st th s)
  then show ?case by (auto simp: delay_phase_def running_def split: if_splits)
next
  case (11 t out c st th s)
  then show ?case by (auto simp: delay_phase_def running_def split: option.splits)
qed

lemma step_delay_phase:
  "step t s = Some s' \<Longrightarrow> delay_phase lg a j t' s \<Longrightarrow> delay_phase lg a j t' s'"
  using step_at_other [of t _ _ _ s s' t'] delay_phase_mono [of s' t' s lg a j]
  by (cases "t' = t")
    (auto simp: step_def step_at_delay_phase_self split: if_splits)

lemma exec_delay_phase: "delay_phase lg a j t s \<Longrightarrow> delay_phase lg a j t (exec x s)"
  by (cases x s rule: exec_cases)
    (simp_all add: step_delay_phase, erule delay_phase_mono [rotated 2], simp_all)

lemma run_delay_phase: "delay_phase lg a j t s \<Longrightarrow> delay_phase lg a j t (run as s)"
  by (induction as arbitrary: s) (simp_all add: exec_delay_phase)

lemma DelayJob_neq [simp]: "DelayJob lg a j \<noteq> j"
  by (induction j) simp_all

lemma running_inside: "running a j t s \<Longrightarrow> inside a (threads s ! t)"
  unfolding running_def inside_def using last_in_set by metis

lemma calling_inside:
  "delay_phase lg a j t s \<Longrightarrow> ctl (threads s ! t) = Enter j \<Longrightarrow> inside a (threads s ! t)"
  using running_inside [of a j t s] by (auto simp: delay_phase_def inside_def)

lemma in_prim_inside:
  "delay_phase lg a j t s \<Longrightarrow> ctl (threads s ! t) = InPrim \<Longrightarrow> inside a (threads s ! t)"
  using running_inside [of a j t s] by (auto simp: delay_phase_def)

lemma inside_owner:
  "lock_view a s \<Longrightarrow> t < length (threads s) \<Longrightarrow> inside a (threads s ! t) \<Longrightarrow>
   owner_after a None (trace s) = Some t"
  by (simp add: lock_view_def)

lemma free_owner:
  "lock_view a s \<Longrightarrow> \<not> mutexes (heap s) a \<Longrightarrow> owner_after a None (trace s) = None"
  by (simp add: lock_view_def)

lemma step_at_serial:
  assumes "step_at t k st th s = Some s'" and "t < length (threads s)"
    and "stack (threads s ! t) = st" and "ctl (threads s ! t) = k"
    and "lock_view a s" and "delay_phase lg a j t s" and "serial a j None (trace s)"
  shows "serial a j None (trace s')"
proof -
  have call: "k = Enter j \<Longrightarrow> owner_after a None (trace s) = Some t"
    using assms calling_inside [of lg a j t s] inside_owner [of a s t] by simp
  have prim: "k = InPrim \<Longrightarrow> owner_after a None (trace s) = Some t"
    using assms in_prim_inside [of lg a j t s] inside_owner [of a s t] by simp
  have top: "\<And>st'. st = DeferUnlock a # st' \<Longrightarrow> owner_after a None (trace s) = Some t"
    using assms inside_owner [of a s t] by (simp add: inside_def)
  have free: "\<not> mutexes (heap s) a \<Longrightarrow> owner_after a None (trace s) = None"
    using assms free_owner by blast
  show ?thesis
    using assms(1,7) call prim top free
    by (induction t k st th s rule: step_at.induct)
      (auto simp: serial_append Let_def split: if_splits option.splits)
qed

lemma length_threads_step_at:
  "step_at t k st th s = Some s' \<Longrightarrow> length (threads s') = length (threads s)"
  by (induction t k st th s rule: step_at.induct)
    (auto simp: Let_def split: if_splits option.splits)

lemma length_threads_exec [simp]: "length (threads (exec x s)) = length (threads s)"
  by (cases x s rule: exec_cases) (auto simp: step_def length_threads_step_at split: if_splits)

lemma length_threads_run [simp]: "length (threads (run as s)) = length (threads s)"
  by (induction as arbitrary: s) simp_all

lemma step_delay_inv:
  assumes "step t s = Some s'" and "delay_inv lg a j s"
  shows "delay_inv lg a j s'"
proof -
  from assms(1) have t: "t < length (threads s)"
    and at: "step_at t (ctl (threads s ! t)) (stack (threads s ! t)) (threads s ! t) s = Some s'"
    by (auto simp: step_def split: if_splits)
  have len: "length (threads s') = length (threads s)"
    using length_threads_step_at [OF at] .
  have "lock_view a s'" using assms step_lock_view by (auto simp: delay_inv_def)
  moreover have "serial a j None (trace s')"
    using step_at_serial [OF at t refl refl, of a lg j] assms(2) t by (simp add: delay_inv_def)
  moreover have "\<forall>t' < length (threads s'). delay_phase lg a j t' s'"
    using step_delay_phase [OF assms(1)] assms(2) len by (simp add: delay_inv_def)
  ultimately show ?thesis by (simp add: delay_inv_def)
qed

lemma tick_delay_inv:
  assumes "delay_inv lg a j s"
  shows "delay_inv lg a j (s\<lparr>clock := n\<rparr>)"
proof -
  have "lock_view a (s\<lparr>clock := n\<rparr>)"
    using assms by (simp add: delay_inv_def lock_view_def lock_balance_def)
  moreover have "\<forall>t < length (threads s). delay_phase lg a j t (s\<lparr>clock := n\<rparr>)"
    using assms delay_phase_mono [of "s\<lparr>clock := n\<rparr>" _ s lg a j]
    by (simp add: delay_inv_def)
  ultimately show ?thesis using assms by (simp add: delay_inv_def)
qed

lemma exec_delay_inv: "delay_inv lg a j s \<Longrightarrow> delay_inv lg a j (exec x s)"
  by (cases x s rule: exec_cases) (simp_all add: step_delay_inv tick_delay_inv)

lemma run_delay_inv: "delay_inv lg a j s \<Longrightarrow> delay_inv lg a j (run as s)"
  by (induction as arbitrary: s) (simp_all add: exec_delay_inv)

lemma holding_fresh:
  "holding fr (start_machine h now (map (\<lambda>(out, d). invocation wj out d) fs)) = 0"
  by (induction fs) (auto simp: holding_def start_machine_def invocation_def)

lemma registered_delay:
  "registered (DelayIfStillRunning lg) j h now fs =
     start_machine (h\<lparr>mutexes := (mutexes h)(next_mu h := False), next_mu := next_mu h + 1\<rparr>) now
       (map (\<lambda>(out, d). invocation (DelayJob lg (next_mu h) j) out d) fs)"
  by (simp add: registered_def DelayIfStillRunning_def Let_def)

lemma delay_inv_registered:
  "delay_inv lg (next_mu h) j (registered (DelayIfStillRunning lg) j h now fs)"
  unfolding registered_delay delay_inv_def lock_view_def lock_balance_def holding_fresh
  by (auto simp: start_machine_def inside_def invocation_def delay_phase_def split: prod.splits)

lemma holding_pos_ex:
  assumes "0 < holding fr s"
  shows "\<exists>t < length (threads s). fr \<in> set (stack (threads s ! t))"
proof (rule ccontr)
  assume "\<not> ?thesis"
  then have "\<forall>t < length (threads s). fr \<notin> set (stack (threads s ! t))" by simp
  then have "\<forall>th \<in> set (threads s). fr \<notin> set (stack th)"
    unfolding all_set_conv_all_nth .
  then have "\<forall>th \<in> set (threads s). count_list (stack th) fr = 0"
    by (simp add: count_list_0_iff)
  then have "holding fr s = 0" by (simp add: holding_def)
  with assms show False by simp
qed

lemma locked_someone_inside:
  "lock_balance a s \<Longrightarrow> mutexes (heap s) a \<Longrightarrow> \<exists>t < length (threads s). inside a (threads s ! t)"
  using holding_pos_ex [of "DeferUnlock a" s] by (simp add: lock_balance_def inside_def)

lemma inside_locked:
  "lock_view a s \<Longrightarrow> t < length (threads s) \<Longrightarrow> inside a (threads s ! t) \<Longrightarrow> mutexes (heap s) a"
  by (simp add: lock_view_def)

lemma finished_called:
  "delay_phase lg a j t s \<Longrightarrow> finished (threads s ! t) \<Longrightarrow> EvCall t j \<in> set (trace s)"
  by (auto simp: delay_phase_def running_def finished_def split: control.splits)

lemmas machine_eval =
  registered_def start_machine_def invocation_def step_def exec_def
  set_thread_def emit_def set_mutex_def set_chan_def
  Recover_def DelayIfStillRunning_def SkipIfStillRunning_def
  send_def recv_ready_def make_chan_def empty_store_def
  inside_def has_token_def finished_def Let_def

lemma Since_same [simp]: "Since x x = 0"
  by (simp add: Since_def)

lemma Since_after: "Since x (x + int d) = min (int d) 9223372036854775807"
  by (simp add: Since_def Let_def)

lemma Since_over_Minute [simp]: "(Minute < Since x (x + int d)) = (Minute < int d)"
  by (simp add: Since_def Let_def Minute_def)

lemma Minute_pos [simp]: "\<not> Minute < 0"
  by (simp add: Minute_def)

lemma delay_reachable:
  "delay_inv lg (next_mu h) j (run sched (registered (DelayIfStillRunning lg) j h now fs))"
  by (rule run_delay_inv) (rule delay_inv_registered)

lemma work_set_thread:
  "t < length (threads s) \<Longrightarrow>
   work (set_thread t k st s) + remaining (threads s ! t) =
   work s + remaining ((threads s ! t)\<lparr>ctl := k, stack := st\<rparr>)"
  using sum_list_map_update [of t "threads s" remaining "(threads s ! t)\<lparr>ctl := k, stack := st\<rparr>"]
  by (simp add: work_def set_thread_def)

lemma work_simps [simp]:
  "work (emit es s) = work s"
  "work (set_mutex a b s) = work s"
  "work (set_chan c ch s) = work s"
  by (simp_all add: work_def)

lemma step_at_prim:
  assumes "step_at t k st th s = Some s'" and "t < length (threads s)"
    and "stack (threads s ! t) = st" and "ctl (threads s ! t) = k"
    and "prim_phase lg a (threads s ! t)"
  shows "prim_phase lg a (threads s' ! t) \<and> work s' + 1 = work s"
  using assms
proof (induction t k st th s rule: step_at.induct)
  case (1 t st th s)
  then show ?case
    using work_set_thread [of t s InPrim st]
    by (auto simp: prim_phase_def remaining_def)
next
  case (2 t st th s)
  then show ?case
    using work_set_thread [of t s "Return (fate th)" st]
    by (auto simp: prim_phase_def remaining_def)
next
  case (3 t lg' j st th s)
  then show ?case by (auto simp: prim_phase_def)
next
  case (4 t lg' a' j st th s)
  then show ?case
    using work_set_thread [of t s "LockWait lg' a' j (clock s)" st]
    by (auto simp: prim_phase_def remaining_def)
next
  case (5 t lg' a' j start st th s)
  then show ?case
    using work_set_thread [of t "set_mutex a' True s" "Locked lg' a' j start" "DeferUnlock a' # st"]
    by (auto simp: prim_phase_def remaining_def split: if_splits)
next
  case (6 t lg' a' j start st th s)
  then show ?case
    using work_set_thread [of t s "Enter j" st]
    by (auto simp: prim_phase_def remaining_def Let_def)
next
  case (7 t lg' c j st th s)
  then show ?case by (auto simp: prim_phase_def)
next
  case (8 t out th s)
  then show ?case by simp
next
  case (9 t out lg' st th s)
  then show ?case by (auto simp: prim_phase_def)
next
  case (10 t out a' st th s)
  then show ?case
    using work_set_thread [of t "set_mutex a' False s" "Return out" st]
    by (auto simp: prim_phase_def remaining_def split: if_splits)
next
  case (11 t out c st th s)
  then show ?case by (auto simp: prim_phase_def)
qed

lemma step_prim_inv:
  assumes "step u s = Some s'" and "prim_inv lg a s"
  shows "prim_inv lg a s' \<and> work s' < work s \<and> length (threads s') = length (threads s)"
proof -
  from assms(1) have u: "u < length (threads s)"
    and at: "step_at u (ctl (threads s ! u)) (stack (threads s ! u)) (threads s ! u) s = Some s'"
    by (auto simp: step_def split: if_splits)
  have len: "length (threads s') = length (threads s)"
    using length_threads_step_at [OF at] .
  have self: "prim_phase lg a (threads s' ! u) \<and> work s' + 1 = work s"
    using step_at_prim [OF at u refl refl, of lg a] assms(2) u by (simp add: prim_inv_def)
  have other: "prim_phase lg a (threads s' ! t)" if "t < length (threads s)" "t \<noteq> u" for t
    using step_at_other [OF at u that(2)] assms(2) that(1) by (simp add: prim_inv_def)
  have "lock_view a s'" using step_lock_view [OF assms(1)] assms(2) by (simp add: prim_inv_def)
  moreover have "\<forall>t < length (threads s'). prim_phase lg a (threads s' ! t)"
    using self other len by metis
  ultimately show ?thesis using self len by (simp add: prim_inv_def)
qed

lemma exec_prim_inv: "prim_inv lg a s \<Longrightarrow> prim_inv lg a (exec x s)"
  by (cases x s rule: exec_cases)
    (auto simp: step_prim_inv, simp add: prim_inv_def lock_view_def lock_balance_def)

lemma run_prim_inv: "prim_inv lg a s \<Longrightarrow> prim_inv lg a (run as s)"
  by (induction as arbitrary: s) (simp_all add: exec_prim_inv)

lemma prim_inv_registered:
  "prim_inv lg (next_mu h) (registered (DelayIfStillRunning lg) Prim h now fs)"
  using delay_inv_registered [of lg h Prim now fs]
  unfolding prim_inv_def delay_inv_def registered_delay
  by (auto simp: start_machine_def invocation_def prim_phase_def split: prod.splits)

lemma holder_enabled:
  assumes "prim_inv lg a s" "u < length (threads s)" "inside a (threads s ! u)"
  shows "\<exists>s'. step u s = Some s'"
proof -
  have ph: "prim_phase lg a (threads s ! u)" and view: "lock_view a s"
    using assms(1,2) by (simp_all add: prim_inv_def)
  have locked: "mutexes (heap s) a" using inside_locked [OF view assms(2,3)] .
  show ?thesis
    using ph assms(2,3) locked
    by (cases "ctl (threads s ! u)")
      (auto simp: prim_phase_def step_def inside_def Let_def)
qed

lemma prim_enabled:
  assumes "prim_inv lg a s" "t < length (threads s)" "\<not> finished (threads s ! t)"
  shows "\<exists>u s'. u < length (threads s) \<and> step u s = Some s'"
proof (cases "inside a (threads s ! t)")
  case True
  then show ?thesis using holder_enabled [OF assms(1,2)] assms(2) by blast
next
  case False
  have ph: "prim_phase lg a (threads s ! t)" and view: "lock_view a s"
    using assms(1,2) by (simp_all add: prim_inv_def)
  show ?thesis
  proof (cases "mutexes (heap s) a")
    case True
    then obtain u where "u < length (threads s)" "inside a (threads s ! u)"
      using locked_someone_inside [of a s] view by (auto simp: lock_view_def)
    then show ?thesis using holder_enabled [OF assms(1)] by blast
  next
    case free: False
    have "\<exists>s'. step t s = Some s'"
      using ph assms(2,3) False free
      by (cases "ctl (threads s ! t)")
        (auto simp: prim_phase_def step_def inside_def finished_def Let_def)
    then show ?thesis using assms(2) by blast
  qed
qed

lemma prim_can_finish:
  "prim_inv lg a s \<Longrightarrow>
   \<exists>rest. \<forall>t < length (threads s). finished (threads (run rest s) ! t)"
proof (induction "work s" arbitrary: s rule: less_induct)
  case less
  show ?case
  proof (cases "\<forall>t < length (threads s). finished (threads s ! t)")
    case True
    then have "\<forall>t < length (threads s). finished (threads (run [] s) ! t)" by simp
    then show ?thesis by blast
  next
    case False
    then obtain t where "t < length (threads s)" "\<not> finished (threads s ! t)" by blast
    then obtain u s' where st: "step u s = Some s'"
      using prim_enabled [OF less.prems] by blast
    from step_prim_inv [OF st less.prems]
    have inv': "prim_inv lg a s'" and lt: "work s' < work s"
      and len: "length (threads s') = length (threads s)" by simp_all
    from less.hyps [OF lt inv'] obtain rest
      where "\<forall>t < length (threads s'). finished (threads (run rest s') ! t)" by blast
    then have "\<forall>t < length (threads s). finished (threads (run (Step u # rest) s) ! t)"
      using st len by (simp add: exec_def)
    then show ?thesis by blast
  qed
qed

lemma run_append: "run (xs @ ys) s = run ys (run xs s)"
  by (induction xs arbitrary: s) simp_all

lemma enter_calls:
  "t < length (threads s) \<Longrightarrow> ctl (threads s ! t) = Enter j \<Longrightarrow>
   \<exists>s' es. step t s = Some s' \<and> trace s' = trace s @ EvCall t j # es"
  by (cases j) (auto simp: step_def split: option.splits)

lemma finished_outside: "finished th \<Longrightarrow> \<not> inside a th"
  by (cases "ctl th") (simp_all add: finished_def inside_def)

section \<open>DelayIfStillRunning\<close>

text \<open>
  C1. A job wrapped by DelayIfStillRunning, registered once and invoked by any number of
  threads, in every state of every interleaving: at most one thread is inside the
  critical section where the inner job runs; an invocation that waits at the lock while
  another is inside cannot move, and it acquires the lock once nobody is inside; past the
  lock an invocation always goes on to the inner job, and there it calls it; an opaque
  job in progress ends; the invocation that leaves the critical section releases the
  lock, whatever the outcome; the trace is serial (the lock is taken and given back in
  turns, and a thread calls the inner job and ends an opaque job only during its own
  turn); and every invocation that has returned has called the inner job. When the inner
  job is opaque, every state of every interleaving can be continued so that all
  invocations return, each having called the inner job, with the lock free at the end:
  none is dropped. Two overlapping invocations run the inner job one after the other, in
  the order in which they acquired the lock.
\<close>

theorem C1_delay_serializes:
  "let a = next_mu h; s = run sched (registered (DelayIfStillRunning lg) j h now fs) in
     (\<forall>t t'. t < length (threads s) \<and> t' < length (threads s) \<and>
        inside a (threads s ! t) \<and> inside a (threads s ! t') \<longrightarrow> t = t') \<and>
     (\<forall>t t' start. t < length (threads s) \<and> t' < length (threads s) \<and>
        ctl (threads s ! t) = LockWait lg a j start \<and> inside a (threads s ! t') \<longrightarrow>
        step t s = None) \<and>
     (\<forall>t start. t < length (threads s) \<and> ctl (threads s ! t) = LockWait lg a j start \<and>
        (\<forall>t' < length (threads s). \<not> inside a (threads s ! t')) \<longrightarrow>
        step t s = Some (emit [EvAcquire t a]
          (set_thread t (Locked lg a j start) (DeferUnlock a # stack (threads s ! t))
            (set_mutex a True s)))) \<and>
     (\<forall>t start. t < length (threads s) \<and> ctl (threads s ! t) = Locked lg a j start \<longrightarrow>
        (\<exists>s'. step t s = Some s' \<and> ctl (threads s' ! t) = Enter j)) \<and>
     serial a j None (trace s) \<and>
     (\<forall>t. t < length (threads s) \<and> finished (threads s ! t) \<longrightarrow> EvCall t j \<in> set (trace s)) \<and>
     (\<forall>t. t < length (threads s) \<and> ctl (threads s ! t) = Enter j \<longrightarrow>
        (\<exists>s' es. step t s = Some s' \<and> trace s' = trace s @ EvCall t j # es)) \<and>
     (\<forall>t. t < length (threads s) \<and> ctl (threads s ! t) = InPrim \<longrightarrow>
        step t s = Some (emit [EvEnd t (fate (threads s ! t))]
          (set_thread t (Return (fate (threads s ! t))) (stack (threads s ! t)) s))) \<and>
     (\<forall>t out st. t < length (threads s) \<and> ctl (threads s ! t) = Return out \<and>
        stack (threads s ! t) = DeferUnlock a # st \<longrightarrow>
        step t s = Some (emit [EvRelease t a]
          (set_thread t (Return out) st (set_mutex a False s)))) \<and>
     (let sp = run sched (registered (DelayIfStillRunning lg) Prim h now fs) in
        \<exists>rest. \<not> mutexes (heap (run rest sp)) a \<and>
          (\<forall>t < length (threads sp).
             finished (threads (run rest sp) ! t) \<and>
             EvCall t Prim \<in> set (trace (run rest sp)))) \<and>
     (\<forall>out0 out1 d0 d1.
        let s2 = run [Step 0, Step 0, Step 1, Step 1, Step 0, Step 0, Step 0, Step 0,
                      Step 1, Step 1, Step 1, Step 1, Step 1]
                   (registered (DelayIfStillRunning lg) Prim h now [(out0, d0), (out1, d1)]) in
        trace s2 =
          [EvCall 0 (DelayJob lg a Prim), EvAcquire 0 a, EvCall 1 (DelayJob lg a Prim),
           EvCall 0 Prim, EvEnd 0 (out0 :: 'a outcome), EvRelease 0 a,
           EvAcquire 1 a, EvCall 1 Prim, EvEnd 1 out1, EvRelease 1 a] \<and>
        finished (threads s2 ! 0) \<and> finished (threads s2 ! 1))"
proof -
  define a where "a = next_mu h"
  define s where "s = run sched (registered (DelayIfStillRunning lg) j h now fs)"
  have inv: "delay_inv lg a j s"
    unfolding a_def s_def by (rule run_delay_inv) (rule delay_inv_registered)
  then have view: "lock_view a s" and ser: "serial a j None (trace s)"
    and ph: "\<And>t. t < length (threads s) \<Longrightarrow> delay_phase lg a j t s"
    by (simp_all add: delay_inv_def)
  have excl: "t = t'" if "t < length (threads s)" "t' < length (threads s)"
    "inside a (threads s ! t)" "inside a (threads s ! t')" for t t'
    using inside_owner [OF view that(1,3)] inside_owner [OF view that(2,4)] by simp
  have blocked: "step t s = None" if "t < length (threads s)" "t' < length (threads s)"
    "ctl (threads s ! t) = LockWait lg a j start" "inside a (threads s ! t')" for t t' start
    using that inside_locked [OF view that(2,4)] by (simp add: step_def)
  have free: "step t s = Some (emit [EvAcquire t a]
          (set_thread t (Locked lg a j start) (DeferUnlock a # stack (threads s ! t))
            (set_mutex a True s)))"
    if "t < length (threads s)" "ctl (threads s ! t) = LockWait lg a j start"
      "\<forall>t' < length (threads s). \<not> inside a (threads s ! t')" for t start
  proof -
    have "\<not> mutexes (heap s) a"
      using locked_someone_inside [of a s] view that(3) by (auto simp: lock_view_def)
    then show ?thesis using that by (simp add: step_def)
  qed
  have go: "\<exists>s'. step t s = Some s' \<and> ctl (threads s' ! t) = Enter j"
    if "t < length (threads s)" "ctl (threads s ! t) = Locked lg a j start" for t start
    using that by (simp add: step_def Let_def)
  have fin: "EvCall t j \<in> set (trace s)"
    if "t < length (threads s)" "finished (threads s ! t)" for t
    using finished_called [OF ph [OF that(1)] that(2)] .
  have call: "\<exists>s' es. step t s = Some s' \<and> trace s' = trace s @ EvCall t j # es"
    if "t < length (threads s)" "ctl (threads s ! t) = Enter j" for t
    using enter_calls [OF that] .
  have ends: "step t s = Some (emit [EvEnd t (fate (threads s ! t))]
          (set_thread t (Return (fate (threads s ! t))) (stack (threads s ! t)) s))"
    if "t < length (threads s)" "ctl (threads s ! t) = InPrim" for t
    using that by (simp add: step_def)
  have release: "step t s = Some (emit [EvRelease t a]
          (set_thread t (Return out) st (set_mutex a False s)))"
    if "t < length (threads s)" "ctl (threads s ! t) = Return out"
      "stack (threads s ! t) = DeferUnlock a # st" for t out st
  proof -
    have "inside a (threads s ! t)" using that(3) by (simp add: inside_def)
    then have "mutexes (heap s) a" using inside_locked [OF view that(1)] by simp
    then show ?thesis using that by (simp add: step_def)
  qed
  have complete: "\<exists>rest. \<not> mutexes (heap (run rest sp)) a \<and>
          (\<forall>t < length (threads sp).
             finished (threads (run rest sp) ! t) \<and>
             EvCall t Prim \<in> set (trace (run rest sp)))"
    if sp: "sp = run sched (registered (DelayIfStillRunning lg) Prim h now fs)" for sp
  proof -
    have "prim_inv lg a sp"
      unfolding a_def sp by (rule run_prim_inv) (rule prim_inv_registered)
    from prim_can_finish [OF this] obtain rest
      where done_all: "\<forall>t < length (threads sp). finished (threads (run rest sp) ! t)" by blast
    have "run rest sp = run (sched @ rest) (registered (DelayIfStillRunning lg) Prim h now fs)"
      unfolding sp by (simp add: run_append)
    then have inv2: "delay_inv lg a Prim (run rest sp)"
      unfolding a_def using delay_reachable [of lg h Prim "sched @ rest" now fs] by simp
    then have view2: "lock_view a (run rest sp)"
      and ph2: "\<And>t. t < length (threads sp) \<Longrightarrow> delay_phase lg a Prim t (run rest sp)"
      by (simp_all add: delay_inv_def)
    have called: "EvCall t Prim \<in> set (trace (run rest sp))" if "t < length (threads sp)" for t
      using finished_called [OF ph2 [OF that]] done_all that by blast
    have "\<not> inside a (threads (run rest sp) ! t)" if "t < length (threads sp)" for t
      using done_all that finished_outside by blast
    then have "\<not> mutexes (heap (run rest sp)) a"
      using locked_someone_inside [of a "run rest sp"] view2 by (auto simp: lock_view_def)
    then show ?thesis using done_all called by blast
  qed
  have scenario: "let s2 = run [Step 0, Step 0, Step 1, Step 1, Step 0, Step 0, Step 0, Step 0,
                      Step 1, Step 1, Step 1, Step 1, Step 1]
                   (registered (DelayIfStillRunning lg) Prim h now [(out0, d0), (out1, d1)]) in
        trace s2 =
          [EvCall 0 (DelayJob lg a Prim), EvAcquire 0 a, EvCall 1 (DelayJob lg a Prim),
           EvCall 0 Prim, EvEnd 0 out0, EvRelease 0 a,
           EvAcquire 1 a, EvCall 1 Prim, EvEnd 1 out1, EvRelease 1 a] \<and>
        finished (threads s2 ! 0) \<and> finished (threads s2 ! 1)"
    for out0 out1 :: "'a outcome" and d0 d1
    unfolding a_def by (simp add: machine_eval)
  show ?thesis
    unfolding Let_def a_def [symmetric] s_def [symmetric]
    apply (intro conjI)
    subgoal using excl by blast
    subgoal using blocked by blast
    subgoal using free by blast
    subgoal using go by blast
    subgoal using ser .
    subgoal using fin by blast
    subgoal using call by blast
    subgoal using ends by blast
    subgoal using release by blast
    subgoal using complete by blast
    subgoal using scenario [unfolded Let_def] by blast
    done
qed

theorem C1_witness:
  "let s = run [Step 0, Step 0, Step 1, Step 1, Step 0, Step 0, Step 0]
             (registered (DelayIfStillRunning 0) Prim empty_store 0
                [(Panic None :: unit outcome, ''''), (Normal, '''')]) in
     inside 0 (threads s ! 0) \<and> ctl (threads s ! 1) = LockWait 0 0 Prim 0 \<and>
     step 1 s = None \<and> serial 0 Prim None (trace s) \<and>
     ctl (threads s ! 0) = Return (Panic None) \<and> stack (threads s ! 0) = [DeferUnlock 0] \<and>
     step 0 s = Some (emit [EvRelease 0 0]
                       (set_thread 0 (Return (Panic None)) [] (set_mutex 0 False s)))"
proof -
  note at =
    C1_delay_serializes [where sched = "[Step 0, Step 0, Step 1, Step 1, Step 0, Step 0, Step 0]"
        and lg = 0 and j = Prim and h = empty_store and now = 0
        and fs = "[(Panic None :: unit outcome, ''''), (Normal, '''')]", unfolded Let_def]
  show ?thesis
    using at [THEN conjunct2, THEN conjunct1]
      at [THEN conjunct2, THEN conjunct2, THEN conjunct2, THEN conjunct2, THEN conjunct2,
        THEN conjunct2, THEN conjunct2, THEN conjunct2, THEN conjunct1]
    by (simp add: machine_eval)
qed

text \<open>
  C7. In every state of every interleaving, a thread that leaves the closure of
  DelayIfStillRunning, whether the inner job returned or panicked, runs the deferred
  unlock: the mutex is then free, no thread is inside the critical section, and the
  outcome (the panic) is passed on to the caller unchanged. A waiting invocation acquires
  a free mutex, and the mutex is locked exactly when some thread is inside. In
  particular, of two invocations of a wrapped opaque job one after the other, the first
  of which panics, both acquire the lock, run the inner job and release the lock.
\<close>

theorem C7_lock_released_on_every_exit:
  "let a = next_mu h; s = run sched (registered (DelayIfStillRunning lg) j h now fs) in
     (\<forall>t out st. t < length (threads s) \<and> ctl (threads s ! t) = Return out \<and>
        stack (threads s ! t) = DeferUnlock a # st \<longrightarrow>
        (\<exists>s'. step t s = Some s' \<and> \<not> mutexes (heap s') a \<and>
           ctl (threads s' ! t) = Return out \<and> stack (threads s' ! t) = st \<and>
           trace s' = trace s @ [EvRelease t a] \<and>
           (\<forall>u < length (threads s'). \<not> inside a (threads s' ! u)))) \<and>
     (\<forall>t start. t < length (threads s) \<and> ctl (threads s ! t) = LockWait lg a j start \<and>
        \<not> mutexes (heap s) a \<longrightarrow>
        (\<exists>s'. step t s = Some s' \<and> ctl (threads s' ! t) = Locked lg a j start \<and>
           inside a (threads s' ! t))) \<and>
     mutexes (heap s) a = (\<exists>t < length (threads s). inside a (threads s ! t)) \<and>
     (\<forall>r out d0 d1.
        trace (run [Step 0, Step 0, Step 0, Step 0, Step 0, Step 0,
                    Step 1, Step 1, Step 1, Step 1, Step 1, Step 1]
                 (registered (DelayIfStillRunning lg) Prim h now [(Panic r, d0), (out, d1)])) =
          [EvCall 0 (DelayJob lg a Prim), EvAcquire 0 a, EvCall 0 Prim, EvEnd 0 (Panic r),
           EvRelease 0 a,
           EvCall 1 (DelayJob lg a Prim), EvAcquire 1 a, EvCall 1 Prim,
           EvEnd 1 (out :: 'a outcome), EvRelease 1 a])"
proof -
  define a where "a = next_mu h"
  define s where "s = run sched (registered (DelayIfStillRunning lg) j h now fs)"
  have inv: "delay_inv lg a j s"
    unfolding a_def s_def by (rule delay_reachable)
  then have view: "lock_view a s" by (simp add: delay_inv_def)
  have release: "\<exists>s'. step t s = Some s' \<and> \<not> mutexes (heap s') a \<and>
           ctl (threads s' ! t) = Return out \<and> stack (threads s' ! t) = st \<and>
           trace s' = trace s @ [EvRelease t a] \<and>
           (\<forall>u < length (threads s'). \<not> inside a (threads s' ! u))"
    if "t < length (threads s)" "ctl (threads s ! t) = Return out"
      "stack (threads s ! t) = DeferUnlock a # st" for t out st
  proof -
    let ?s' = "emit [EvRelease t a] (set_thread t (Return out) st (set_mutex a False s))"
    have "inside a (threads s ! t)" using that(3) by (simp add: inside_def)
    then have "mutexes (heap s) a" using inside_locked [OF view that(1)] by simp
    then have st: "step t s = Some ?s'" using that by (simp add: step_def)
    have "lock_view a ?s'" using step_lock_view [OF st view] .
    then have "\<forall>u < length (threads ?s'). \<not> inside a (threads ?s' ! u)"
      by (simp add: lock_view_def)
    then show ?thesis
      using st that(1) by (intro exI [of _ ?s']) simp
  qed
  have acquire: "\<exists>s'. step t s = Some s' \<and> ctl (threads s' ! t) = Locked lg a j start \<and>
           inside a (threads s' ! t)"
    if "t < length (threads s)" "ctl (threads s ! t) = LockWait lg a j start"
      "\<not> mutexes (heap s) a" for t start
    using that by (simp add: step_def inside_def)
  have locked_iff: "mutexes (heap s) a = (\<exists>t < length (threads s). inside a (threads s ! t))"
    using locked_someone_inside [of a s] inside_locked [OF view] view
    by (auto simp: lock_view_def)
  have both: "trace (run [Step 0, Step 0, Step 0, Step 0, Step 0, Step 0,
                    Step 1, Step 1, Step 1, Step 1, Step 1, Step 1]
                 (registered (DelayIfStillRunning lg) Prim h now [(Panic r, d0), (out, d1)])) =
          [EvCall 0 (DelayJob lg a Prim), EvAcquire 0 a, EvCall 0 Prim, EvEnd 0 (Panic r),
           EvRelease 0 a,
           EvCall 1 (DelayJob lg a Prim), EvAcquire 1 a, EvCall 1 Prim,
           EvEnd 1 out, EvRelease 1 a]"
    for r and out :: "'a outcome" and d0 d1
    unfolding a_def by (simp add: machine_eval)
  show ?thesis
    unfolding Let_def a_def [symmetric] s_def [symmetric]
    using release acquire locked_iff both by blast
qed

theorem C7_witness:
  "let s = run [Step 0, Step 0, Step 0, Step 0, Step 0, Step 1]
             (registered (DelayIfStillRunning 0) Prim empty_store 0
                [(Panic None :: unit outcome, ''''), (Normal, '''')]) in
     ctl (threads s ! 0) = Return (Panic None) \<and> stack (threads s ! 0) = [DeferUnlock 0] \<and>
     mutexes (heap s) 0 \<and>
     (\<exists>s'. step 0 s = Some s' \<and> \<not> mutexes (heap s') 0 \<and>
        ctl (threads s' ! 0) = Return (Panic None) \<and> stack (threads s' ! 0) = [] \<and>
        (\<exists>s''. step 1 s' = Some s'' \<and> inside 0 (threads s'' ! 1)))"
  using C7_lock_released_on_every_exit [where sched = "[Step 0, Step 0, Step 0, Step 0, Step 0, Step 1]"
      and lg = 0 and j = Prim and h = empty_store and now = 0
      and fs = "[(Panic None :: unit outcome, ''''), (Normal, '''')]"]
  by (simp add: machine_eval)

text \<open>
  C5. The closure of DelayIfStillRunning reads the clock when the call starts, keeps that
  reading while it waits for the lock, and once it has the lock, before the inner job
  runs, computes the time since that reading: it logs one record
  \<open>Infof("delay duration=%v", dur)\<close> with that duration exactly when the duration is
  over one minute, logs nothing otherwise, and calls the inner job in both cases. In the
  execution where a second invocation waits \<open>d\<close> nanoseconds for the first and then
  runs for \<open>e\<close> nanoseconds, the record appears exactly when \<open>d\<close> is over a minute;
  \<open>e\<close> plays no part.
\<close>

theorem C5_delay_logged_over_a_minute:
  "(\<forall>t. t < length (threads s) \<and> ctl (threads s ! t) = Enter (DelayJob lg a j) \<longrightarrow>
      (\<exists>s'. step t s = Some s' \<and> ctl (threads s' ! t) = LockWait lg a j (clock s) \<and>
         trace s' = trace s @ [EvCall t (DelayJob lg a j)])) \<and>
   (\<forall>t start. t < length (threads s) \<and> ctl (threads s ! t) = LockWait lg a j start \<and>
      \<not> mutexes (heap s) a \<longrightarrow>
      (\<exists>s'. step t s = Some s' \<and> ctl (threads s' ! t) = Locked lg a j start \<and>
         trace s' = trace s @ [EvAcquire t a])) \<and>
   (\<forall>t start. t < length (threads s) \<and> ctl (threads s ! t) = Locked lg a j start \<longrightarrow>
      (\<exists>s'. step t s = Some s' \<and> ctl (threads s' ! t) = Enter j \<and>
         stack (threads s' ! t) = stack (threads s ! t) \<and>
         trace s' = trace s @
           (if Minute < Since start (clock s)
            then [EvLog lg InfoLevel ''delay duration=%v'' [ArgDuration (Since start (clock s))]]
            else []))) \<and>
   (\<forall>d e out0 out1 d0 d1.
      trace (run [Step 0, Step 0, Step 0, Step 0, Step 1, Step 1, Tick d, Step 1,
                  Step 0, Step 0, Step 1, Step 1, Step 1, Tick e, Step 1, Step 1]
               (registered (DelayIfStillRunning lg) Prim h now [(out0, d0), (out1, d1)])) =
        [EvCall 0 (DelayJob lg (next_mu h) Prim), EvAcquire 0 (next_mu h), EvCall 0 Prim,
         EvCall 1 (DelayJob lg (next_mu h) Prim),
         EvEnd 0 (out0 :: 'a outcome), EvRelease 0 (next_mu h), EvAcquire 1 (next_mu h)] @
        (if Minute < int d
         then [EvLog lg InfoLevel ''delay duration=%v'' [ArgDuration (Since now (now + int d))]]
         else []) @
        [EvCall 1 Prim, EvEnd 1 out1, EvRelease 1 (next_mu h)]) \<and>
   Minute = 60000000000"
proof -
  have enter: "\<exists>s'. step t s = Some s' \<and> ctl (threads s' ! t) = LockWait lg a j (clock s) \<and>
         trace s' = trace s @ [EvCall t (DelayJob lg a j)]"
    if "t < length (threads s)" "ctl (threads s ! t) = Enter (DelayJob lg a j)" for t
    using that by (simp add: step_def)
  have lock: "\<exists>s'. step t s = Some s' \<and> ctl (threads s' ! t) = Locked lg a j start \<and>
         trace s' = trace s @ [EvAcquire t a]"
    if "t < length (threads s)" "ctl (threads s ! t) = LockWait lg a j start"
      "\<not> mutexes (heap s) a" for t start
    using that by (simp add: step_def)
  have measure: "\<exists>s'. step t s = Some s' \<and> ctl (threads s' ! t) = Enter j \<and>
         stack (threads s' ! t) = stack (threads s ! t) \<and>
         trace s' = trace s @
           (if Minute < Since start (clock s)
            then [EvLog lg InfoLevel ''delay duration=%v'' [ArgDuration (Since start (clock s))]]
            else [])"
    if "t < length (threads s)" "ctl (threads s ! t) = Locked lg a j start" for t start
    using that by (simp add: step_def Let_def)
  have scenario: "trace (run [Step 0, Step 0, Step 0, Step 0, Step 1, Step 1, Tick d, Step 1,
                  Step 0, Step 0, Step 1, Step 1, Step 1, Tick e, Step 1, Step 1]
               (registered (DelayIfStillRunning lg) Prim h now [(out0, d0), (out1, d1)])) =
        [EvCall 0 (DelayJob lg (next_mu h) Prim), EvAcquire 0 (next_mu h), EvCall 0 Prim,
         EvCall 1 (DelayJob lg (next_mu h) Prim),
         EvEnd 0 out0, EvRelease 0 (next_mu h), EvAcquire 1 (next_mu h)] @
        (if Minute < int d
         then [EvLog lg InfoLevel ''delay duration=%v'' [ArgDuration (Since now (now + int d))]]
         else []) @
        [EvCall 1 Prim, EvEnd 1 out1, EvRelease 1 (next_mu h)]"
    for d e and out0 out1 :: "'a outcome" and d0 d1
    by (simp add: machine_eval)
  have "Minute = 60000000000" by (simp add: Minute_def)
  with enter lock measure scenario show ?thesis by blast
qed

theorem C5_witness:
  "let s = run [Step 0, Tick 61000000000, Step 0]
             (registered (DelayIfStillRunning 0) Prim empty_store 0
                [(Normal :: unit outcome, '''')]) in
     ctl (threads s ! 0) = Locked 0 0 Prim 0 \<and>
     (\<exists>s'. step 0 s = Some s' \<and> ctl (threads s' ! 0) = Enter Prim \<and>
        trace s' = trace s @
          [EvLog 0 InfoLevel ''delay duration=%v'' [ArgDuration 61000000000]])"
  using C5_delay_logged_over_a_minute [where lg = 0 and a = 0 and j = Prim
      and s = "run [Step 0, Tick 61000000000, Step 0]
             (registered (DelayIfStillRunning 0) Prim empty_store 0
                [(Normal :: unit outcome, '''')])"]
  by (simp add: machine_eval Since_def Minute_def)

section \<open>SkipIfStillRunning\<close>

lemma step_at_cap:
  "step_at t k st th s = Some s' \<Longrightarrow> cap (chans (heap s') c) = cap (chans (heap s) c)"
  by (induction t k st th s rule: step_at.induct)
    (auto simp: Let_def send_def recv_ready_def split: if_splits option.splits list.splits)

lemma exec_cap [simp]: "cap (chans (heap (exec x s)) c) = cap (chans (heap s) c)"
  by (cases x s rule: exec_cases) (auto simp: step_def step_at_cap split: if_splits)

lemma run_cap [simp]: "cap (chans (heap (run as s)) c) = cap (chans (heap s) c)"
  by (induction as arbitrary: s) simp_all

lemma registered_skip:
  "registered (SkipIfStillRunning lg) j h now fs =
     start_machine (h\<lparr>chans := (chans h)(next_ch h := \<lparr>cap = 1, buf = [()]\<rparr>),
                      next_ch := next_ch h + 1\<rparr>) now
       (map (\<lambda>(out, d). invocation (SkipJob lg (next_ch h) j) out d) fs)"
  by (simp add: registered_def SkipIfStillRunning_def Let_def send_def make_chan_def)

lemma tokens_registered:
  "tokens (next_ch h) (registered (SkipIfStillRunning lg) j h now fs) = 1"
  unfolding registered_skip tokens_def holding_fresh by (simp add: start_machine_def)

lemma cap_registered:
  "cap (chans (heap (registered (SkipIfStillRunning lg) j h now fs)) (next_ch h)) = 1"
  unfolding registered_skip by (simp add: start_machine_def)

lemma has_token_count:
  "has_token c th \<Longrightarrow> 1 \<le> count_list (stack th) (DeferSend c)"
  using count_list_0_iff [of "stack th" "DeferSend c"] by (auto simp: has_token_def)

lemma one_token_unique:
  assumes "tokens c s = 1" "t < length (threads s)" "t' < length (threads s)"
    "has_token c (threads s ! t)" "has_token c (threads s ! t')"
  shows "t = t'"
proof (rule ccontr)
  assume "t \<noteq> t'"
  from two_le_holding [OF assms(2,3) this, of "DeferSend c"]
    has_token_count [OF assms(4)] has_token_count [OF assms(5)] assms(1)
  show False by (simp add: tokens_def)
qed

lemma one_token_taken:
  assumes "tokens c s = 1" "t < length (threads s)" "has_token c (threads s ! t)"
  shows "buf (chans (heap s) c) = []"
proof -
  have "length (buf (chans (heap s) c)) + holding (DeferSend c) s = 1"
    using assms(1) unfolding tokens_def .
  then have "\<not> 0 < length (buf (chans (heap s) c))"
    using count_le_holding [OF assms(2), of "DeferSend c"] has_token_count [OF assms(3)]
    by linarith
  then show ?thesis by simp
qed

lemma one_token_present:
  assumes "tokens c s = 1" "\<forall>t < length (threads s). \<not> has_token c (threads s ! t)"
  shows "buf (chans (heap s) c) = [()]"
proof -
  have "holding (DeferSend c) s = 0"
    using holding_pos_ex [of "DeferSend c" s] assms(2) by (auto simp: has_token_def)
  with assms(1) have "length (buf (chans (heap s) c)) = 1" by (simp add: tokens_def)
  then show ?thesis by (cases "buf (chans (heap s) c)") simp_all
qed

lemma one_token_top:
  assumes "tokens c s = 1" "t < length (threads s)" "stack (threads s ! t) = DeferSend c # st"
  shows "buf (chans (heap s) c) = [] \<and> DeferSend c \<notin> set st \<and>
    (\<forall>u < length (threads s). u \<noteq> t \<longrightarrow> \<not> has_token c (threads s ! u))"
proof -
  have tok: "has_token c (threads s ! t)" using assms(3) by (simp add: has_token_def)
  have "count_list (DeferSend c # st) (DeferSend c) \<le> 1"
    using count_le_holding [OF assms(2), of "DeferSend c"] assms(1,3) by (simp add: tokens_def)
  then have "DeferSend c \<notin> set st" by (simp add: count_list_0_iff)
  then show ?thesis
    using one_token_taken [OF assms(1,2) tok] one_token_unique [OF assms(1) _ assms(2) _ tok]
    by blast
qed

text \<open>
  C9. A job wrapped by SkipIfStillRunning, registered once and invoked by any number of
  threads, in every state of every interleaving: there is exactly one token, counting the
  buffer of the channel and the threads that took it and have it still to send back; the
  buffer holds it exactly when no thread does, and never two threads do; every action of
  the environment (a take, a skip, a return of the token, any other step, the passing of
  time) leaves exactly one token; and the deferred send that returns the token finds the
  buffer empty, so it does not block and puts the token back.
\<close>

theorem C9_one_token:
  "let c = next_ch h; s = run sched (registered (SkipIfStillRunning lg) j h now fs) in
     tokens c s = 1 \<and> cap (chans (heap s) c) = 1 \<and>
     buf (chans (heap s) c) =
       (if \<exists>t < length (threads s). has_token c (threads s ! t) then [] else [()]) \<and>
     (\<forall>t t'. t < length (threads s) \<and> t' < length (threads s) \<and>
        has_token c (threads s ! t) \<and> has_token c (threads s ! t') \<longrightarrow> t = t') \<and>
     (\<forall>x. tokens c (exec x s) = 1) \<and>
     (\<forall>t out st. t < length (threads s) \<and> ctl (threads s ! t) = Return out \<and>
        stack (threads s ! t) = DeferSend c # st \<longrightarrow>
        step t s = Some (set_thread t (Return out) st (set_chan c \<lparr>cap = 1, buf = [()]\<rparr> s)))"
proof -
  define c where "c = next_ch h"
  define s where "s = run sched (registered (SkipIfStillRunning lg) j h now fs)"
  have tok: "tokens c s = 1"
    unfolding c_def s_def by (simp add: run_tokens tokens_registered)
  have cap1: "cap (chans (heap s) c) = 1"
    unfolding c_def s_def by (simp add: cap_registered)
  have where_it_is: "buf (chans (heap s) c) =
       (if \<exists>t < length (threads s). has_token c (threads s ! t) then [] else [()])"
    using one_token_taken [OF tok] one_token_present [OF tok] by auto
  have uniq: "t = t'" if "t < length (threads s)" "t' < length (threads s)"
    "has_token c (threads s ! t)" "has_token c (threads s ! t')" for t t'
    using one_token_unique [OF tok that] .
  have kept: "tokens c (exec x s) = 1" for x
    using tok by (simp add: exec_tokens)
  have give_back: "step t s = Some (set_thread t (Return out) st (set_chan c \<lparr>cap = 1, buf = [()]\<rparr> s))"
    if "t < length (threads s)" "ctl (threads s ! t) = Return out"
      "stack (threads s ! t) = DeferSend c # st" for t out st
  proof -
    have empty: "buf (chans (heap s) c) = []" using one_token_top [OF tok that(1,3)] by simp
    have full: "(chans (heap s) c)\<lparr>buf := [()]\<rparr> = \<lparr>cap = 1, buf = [()]\<rparr>"
      using cap1 by (cases "chans (heap s) c") simp
    show ?thesis
      using that cap1 empty by (simp add: step_def send_def full)
  qed
  show ?thesis
    unfolding Let_def c_def [symmetric] s_def [symmetric]
    using tok cap1 where_it_is uniq kept give_back by blast
qed

theorem C9_witness:
  "let s = run [Step 0, Step 0, Step 0, Step 1]
             (registered (SkipIfStillRunning 0) Prim empty_store 0
                [(Panic None :: unit outcome, ''''), (Normal, '''')]) in
     ctl (threads s ! 0) = Return (Panic None) \<and> stack (threads s ! 0) = [DeferSend 0] \<and>
     has_token 0 (threads s ! 0) \<and> \<not> has_token 0 (threads s ! 1) \<and>
     buf (chans (heap s) 0) = [] \<and> tokens 0 s = 1 \<and>
     step 0 s = Some (set_thread 0 (Return (Panic None)) []
                       (set_chan 0 \<lparr>cap = 1, buf = [()]\<rparr> s))"
  using C9_one_token [where sched = "[Step 0, Step 0, Step 0, Step 1]" and lg = 0
      and j = Prim and h = empty_store and now = 0
      and fs = "[(Panic None :: unit outcome, ''''), (Normal, '''')]"]
  by (simp add: machine_eval)


lemma skip_reachable:
  "tokens (next_ch h) (run sched (registered (SkipIfStillRunning lg) j h now fs)) = 1 \<and>
   cap (chans (heap (run sched (registered (SkipIfStillRunning lg) j h now fs))) (next_ch h)) = 1"
  by (simp add: run_tokens tokens_registered cap_registered)

lemma finished_stuck: "finished (threads s ! t) \<Longrightarrow> step t s = None"
  by (auto simp: finished_def step_def split: control.splits)

text \<open>
  C4. In every state of every interleaving, an invocation of the wrapped job that arrives
  (it is about to call the closure) while a thread holds the token takes a step at once:
  it logs exactly one record, \<open>Infof("skip")\<close>, returns normally without calling the inner
  job (a top-level invocation is then finished and never moves again), and leaves the
  heap, the clock and every other thread as they are, so the running invocation goes on.
  At most one thread holds the token, that is, at most one execution of the inner job is
  in progress.
\<close>

theorem C4_skip_when_running:
  "let c = next_ch h; s = run sched (registered (SkipIfStillRunning lg) j h now fs) in
     (\<forall>t t'. t < length (threads s) \<and> t' < length (threads s) \<and>
        ctl (threads s ! t) = Enter (SkipJob lg c j) \<and> has_token c (threads s ! t') \<longrightarrow>
        (\<exists>s'. step t s = Some s' \<and>
           trace s' = trace s @ [EvCall t (SkipJob lg c j), EvLog lg InfoLevel ''skip'' []] \<and>
           ctl (threads s' ! t) = Return Normal \<and>
           stack (threads s' ! t) = stack (threads s ! t) \<and>
           heap s' = heap s \<and> clock s' = clock s \<and>
           (\<forall>u. u \<noteq> t \<longrightarrow> threads s' ! u = threads s ! u) \<and>
           (stack (threads s ! t) = [] \<longrightarrow> finished (threads s' ! t) \<and> step t s' = None))) \<and>
     (\<forall>t t'. t < length (threads s) \<and> t' < length (threads s) \<and>
        has_token c (threads s ! t) \<and> has_token c (threads s ! t') \<longrightarrow> t = t')"
proof -
  define c where "c = next_ch h"
  define s where "s = run sched (registered (SkipIfStillRunning lg) j h now fs)"
  have tok: "tokens c s = 1"
    unfolding c_def s_def using skip_reachable by blast
  have skip: "\<exists>s'. step t s = Some s' \<and>
           trace s' = trace s @ [EvCall t (SkipJob lg c j), EvLog lg InfoLevel ''skip'' []] \<and>
           ctl (threads s' ! t) = Return Normal \<and>
           stack (threads s' ! t) = stack (threads s ! t) \<and>
           heap s' = heap s \<and> clock s' = clock s \<and>
           (\<forall>u. u \<noteq> t \<longrightarrow> threads s' ! u = threads s ! u) \<and>
           (stack (threads s ! t) = [] \<longrightarrow> finished (threads s' ! t) \<and> step t s' = None)"
    if "t < length (threads s)" "t' < length (threads s)"
      "ctl (threads s ! t) = Enter (SkipJob lg c j)" "has_token c (threads s ! t')" for t t'
  proof -
    let ?s' = "emit [EvCall t (SkipJob lg c j), EvLog lg InfoLevel ''skip'' []]
                 (set_thread t (Return Normal) (stack (threads s ! t)) s)"
    have "buf (chans (heap s) c) = []" using one_token_taken [OF tok that(2,4)] .
    then have st: "step t s = Some ?s'"
      using that by (simp add: step_def recv_ready_def)
    have fin: "finished (threads ?s' ! t)" if "stack (threads s ! t) = []"
      using that \<open>t < length (threads s)\<close> by (simp add: finished_def)
    have stuck: "stack (threads s ! t) = [] \<longrightarrow> finished (threads ?s' ! t) \<and> step t ?s' = None"
      using fin finished_stuck [of ?s' t] by blast
    show ?thesis
    proof (intro exI [of _ ?s'] conjI)
      show "stack (threads s ! t) = [] \<longrightarrow> finished (threads ?s' ! t) \<and> step t ?s' = None"
        using stuck .
    qed (use st that(1) in simp_all)
  qed
  have uniq: "t = t'" if "t < length (threads s)" "t' < length (threads s)"
    "has_token c (threads s ! t)" "has_token c (threads s ! t')" for t t'
    using one_token_unique [OF tok that] .
  show ?thesis
    unfolding Let_def c_def [symmetric] s_def [symmetric]
    using skip uniq by blast
qed

theorem C4_witness:
  "let s = run [Step 0, Step 0]
             (registered (SkipIfStillRunning 0) Prim empty_store 0
                [(Normal :: unit outcome, ''''), (Normal, '''')]) in
     ctl (threads s ! 1) = Enter (SkipJob 0 0 Prim) \<and> has_token 0 (threads s ! 0) \<and>
     ctl (threads s ! 0) = InPrim \<and>
     (\<exists>s'. step 1 s = Some s' \<and>
        trace s' = trace s @ [EvCall 1 (SkipJob 0 0 Prim), EvLog 0 InfoLevel ''skip'' []] \<and>
        finished (threads s' ! 1) \<and> threads s' ! 0 = threads s ! 0)"
  using C4_skip_when_running [where sched = "[Step 0, Step 0]" and lg = 0
      and j = Prim and h = empty_store and now = 0
      and fs = "[(Normal :: unit outcome, ''''), (Normal, '''')]"]
  by (simp add: machine_eval)

text \<open>
  C6. In every state of every interleaving, a thread that leaves the closure of
  SkipIfStillRunning with the token, whether the inner job returned or panicked, sends
  the token back: the buffer holds it again, no thread holds it, and the outcome (the
  panic) is passed on to the caller unchanged. An invocation that arrives when no thread
  holds the token takes it and calls the inner job, with no skip record. In particular,
  of two invocations of a wrapped opaque job one after the other, the first of which
  panics, both run the inner job.
\<close>

theorem C6_token_restored_after_fault:
  "let c = next_ch h; s = run sched (registered (SkipIfStillRunning lg) j h now fs) in
     (\<forall>t out st. t < length (threads s) \<and> ctl (threads s ! t) = Return out \<and>
        stack (threads s ! t) = DeferSend c # st \<longrightarrow>
        (\<exists>s'. step t s = Some s' \<and> buf (chans (heap s') c) = [()] \<and>
           ctl (threads s' ! t) = Return out \<and> stack (threads s' ! t) = st \<and>
           trace s' = trace s \<and>
           (\<forall>u < length (threads s'). \<not> has_token c (threads s' ! u)))) \<and>
     (\<forall>t. t < length (threads s) \<and> ctl (threads s ! t) = Enter (SkipJob lg c j) \<and>
        (\<forall>u < length (threads s). \<not> has_token c (threads s ! u)) \<longrightarrow>
        (\<exists>s'. step t s = Some s' \<and> trace s' = trace s @ [EvCall t (SkipJob lg c j)] \<and>
           ctl (threads s' ! t) = Enter j \<and>
           stack (threads s' ! t) = DeferSend c # stack (threads s ! t))) \<and>
     (\<forall>r out d0 d1.
        trace (run [Step 0, Step 0, Step 0, Step 0, Step 1, Step 1, Step 1, Step 1]
                 (registered (SkipIfStillRunning lg) Prim h now [(Panic r, d0), (out, d1)])) =
          [EvCall 0 (SkipJob lg c Prim), EvCall 0 Prim, EvEnd 0 (Panic r),
           EvCall 1 (SkipJob lg c Prim), EvCall 1 Prim, EvEnd 1 (out :: 'a outcome)])"
proof -
  define c where "c = next_ch h"
  define s where "s = run sched (registered (SkipIfStillRunning lg) j h now fs)"
  have tok: "tokens c s = 1" and cap1: "cap (chans (heap s) c) = 1"
    unfolding c_def s_def using skip_reachable by blast+
  have restore: "\<exists>s'. step t s = Some s' \<and> buf (chans (heap s') c) = [()] \<and>
           ctl (threads s' ! t) = Return out \<and> stack (threads s' ! t) = st \<and>
           trace s' = trace s \<and>
           (\<forall>u < length (threads s'). \<not> has_token c (threads s' ! u))"
    if "t < length (threads s)" "ctl (threads s ! t) = Return out"
      "stack (threads s ! t) = DeferSend c # st" for t out st
  proof -
    let ?s' = "set_thread t (Return out) st
                 (set_chan c ((chans (heap s) c)\<lparr>buf := buf (chans (heap s) c) @ [()]\<rparr>) s)"
    have top: "buf (chans (heap s) c) = []" "DeferSend c \<notin> set st"
      "\<forall>u < length (threads s). u \<noteq> t \<longrightarrow> \<not> has_token c (threads s ! u)"
      using one_token_top [OF tok that(1,3)] by simp_all
    have st: "step t s = Some ?s'"
      using that cap1 top(1) by (simp add: step_def send_def)
    have "\<forall>u < length (threads ?s'). \<not> has_token c (threads ?s' ! u)"
      using top(2,3) that(1) by (simp add: has_token_def)
    then show ?thesis
      using st top(1) that(1) by (intro exI [of _ ?s']) simp
  qed
  have again: "\<exists>s'. step t s = Some s' \<and> trace s' = trace s @ [EvCall t (SkipJob lg c j)] \<and>
           ctl (threads s' ! t) = Enter j \<and>
           stack (threads s' ! t) = DeferSend c # stack (threads s ! t)"
    if "t < length (threads s)" "ctl (threads s ! t) = Enter (SkipJob lg c j)"
      "\<forall>u < length (threads s). \<not> has_token c (threads s ! u)" for t
  proof -
    have "buf (chans (heap s) c) = [()]" using one_token_present [OF tok that(3)] .
    then show ?thesis using that(1,2) by (simp add: step_def recv_ready_def)
  qed
  have both: "trace (run [Step 0, Step 0, Step 0, Step 0, Step 1, Step 1, Step 1, Step 1]
                 (registered (SkipIfStillRunning lg) Prim h now [(Panic r, d0), (out, d1)])) =
          [EvCall 0 (SkipJob lg c Prim), EvCall 0 Prim, EvEnd 0 (Panic r),
           EvCall 1 (SkipJob lg c Prim), EvCall 1 Prim, EvEnd 1 out]"
    for r and out :: "'a outcome" and d0 d1
    unfolding c_def by (simp add: machine_eval)
  show ?thesis
    unfolding Let_def c_def [symmetric] s_def [symmetric]
    using restore again both by blast
qed

theorem C6_witness:
  "let s = run [Step 0, Step 0, Step 0]
             (registered (SkipIfStillRunning 0) Prim empty_store 0
                [(Panic None :: unit outcome, ''''), (Normal, '''')]) in
     ctl (threads s ! 0) = Return (Panic None) \<and> stack (threads s ! 0) = [DeferSend 0] \<and>
     (\<exists>s'. step 0 s = Some s' \<and> buf (chans (heap s') 0) = [()] \<and>
        ctl (threads s' ! 0) = Return (Panic None) \<and> stack (threads s' ! 0) = [] \<and>
        \<not> has_token 0 (threads s' ! 0) \<and> \<not> has_token 0 (threads s' ! 1))"
  using C6_token_restored_after_fault [where sched = "[Step 0, Step 0, Step 0]" and lg = 0
      and j = Prim and h = empty_store and now = 0
      and fs = "[(Panic None :: unit outcome, ''''), (Normal, '''')]"]
  by (simp add: machine_eval)

section \<open>Recover\<close>

text \<open>
  C3, as amended. The closure of Recover defers its handler and calls the inner job.
  When the inner job ends, the handler makes the invocation return normally, whatever the
  outcome: a panic is never passed on. It logs exactly one record,
  \<open>logger.Errorf\<close> with the format string of the source, the panic value and the
  stack dump, when the inner job panicked with a value that is not nil, and no record when the
  inner job returned normally.
\<close>

theorem C3_recover_contains_fault:
  "(\<forall>t. t < length (threads s) \<and> ctl (threads s ! t) = Enter (RecoverJob lg j) \<longrightarrow>
      (\<exists>s'. step t s = Some s' \<and> ctl (threads s' ! t) = Enter j \<and>
         stack (threads s' ! t) = DeferRecover lg # stack (threads s ! t) \<and>
         trace s' = trace s @ [EvCall t (RecoverJob lg j)])) \<and>
   (\<forall>t out st. t < length (threads s) \<and> ctl (threads s ! t) = Return out \<and>
      stack (threads s ! t) = DeferRecover lg # st \<longrightarrow>
      (\<exists>s'. step t s = Some s' \<and> ctl (threads s' ! t) = Return Normal \<and>
         stack (threads s' ! t) = st \<and> heap s' = heap s \<and>
         trace s' = trace s @
           (case out of
              Panic (Some v) \<Rightarrow>
                [EvLog lg ErrorLevel panic_format [ArgValue v, ArgStack (dump (threads s ! t))]]
            | _ \<Rightarrow> []))) \<and>
   (\<forall>v d. let s1 = run [Step 0, Step 0, Step 0, Step 0]
                     (registered (Recover lg) Prim h now [(Panic (Some v), d)]) in
      trace s1 = [EvCall 0 (RecoverJob lg Prim), EvCall 0 Prim, EvEnd 0 (Panic (Some v)),
                  EvLog lg ErrorLevel panic_format [ArgValue (v :: 'a), ArgStack d]] \<and>
      ctl (threads s1 ! 0) = Return Normal \<and> finished (threads s1 ! 0)) \<and>
   (\<forall>d. let s2 = run [Step 0, Step 0, Step 0, Step 0]
                   (registered (Recover lg) Prim h now [(Normal :: 'a outcome, d)]) in
      trace s2 = [EvCall 0 (RecoverJob lg Prim), EvCall 0 Prim, EvEnd 0 Normal] \<and>
      ctl (threads s2 ! 0) = Return Normal \<and> finished (threads s2 ! 0))"
proof -
  have enter: "\<exists>s'. step t s = Some s' \<and> ctl (threads s' ! t) = Enter j \<and>
         stack (threads s' ! t) = DeferRecover lg # stack (threads s ! t) \<and>
         trace s' = trace s @ [EvCall t (RecoverJob lg j)]"
    if "t < length (threads s)" "ctl (threads s ! t) = Enter (RecoverJob lg j)" for t
    using that by (simp add: step_def)
  have handler: "\<exists>s'. step t s = Some s' \<and> ctl (threads s' ! t) = Return Normal \<and>
         stack (threads s' ! t) = st \<and> heap s' = heap s \<and>
         trace s' = trace s @
           (case out of
              Panic (Some v) \<Rightarrow>
                [EvLog lg ErrorLevel panic_format [ArgValue v, ArgStack (dump (threads s ! t))]]
            | _ \<Rightarrow> [])"
    if "t < length (threads s)" "ctl (threads s ! t) = Return out"
      "stack (threads s ! t) = DeferRecover lg # st" for t out st
    using that by (simp add: step_def recovered_def split: outcome.splits option.splits)
  have faulty: "let s1 = run [Step 0, Step 0, Step 0, Step 0]
                     (registered (Recover lg) Prim h now [(Panic (Some v), d)]) in
      trace s1 = [EvCall 0 (RecoverJob lg Prim), EvCall 0 Prim, EvEnd 0 (Panic (Some v)),
                  EvLog lg ErrorLevel panic_format [ArgValue v, ArgStack d]] \<and>
      ctl (threads s1 ! 0) = Return Normal \<and> finished (threads s1 ! 0)" for v :: 'a and d
    by (simp add: machine_eval recovered_def)
  have fine: "let s2 = run [Step 0, Step 0, Step 0, Step 0]
                   (registered (Recover lg) Prim h now [(Normal :: 'a outcome, d)]) in
      trace s2 = [EvCall 0 (RecoverJob lg Prim), EvCall 0 Prim, EvEnd 0 Normal] \<and>
      ctl (threads s2 ! 0) = Return Normal \<and> finished (threads s2 ! 0)" for d
    by (simp add: machine_eval recovered_def)
  from enter handler faulty fine show ?thesis by blast
qed

theorem C3_witness:
  "let s = run [Step 0, Step 0, Step 0]
             (registered (Recover 0) Prim empty_store 0 [(Panic (Some (7 :: nat)), ''trace'')]) in
     ctl (threads s ! 0) = Return (Panic (Some 7)) \<and>
     stack (threads s ! 0) = [DeferRecover 0] \<and>
     (\<exists>s'. step 0 s = Some s' \<and> ctl (threads s' ! 0) = Return Normal \<and>
        stack (threads s' ! 0) = [] \<and>
        trace s' = trace s @
          [EvLog 0 ErrorLevel panic_format [ArgValue 7, ArgStack ''trace'']])"
  using C3_recover_contains_fault [where lg = 0 and j = Prim
      and s = "run [Step 0, Step 0, Step 0]
             (registered (Recover 0) Prim empty_store 0 [(Panic (Some (7 :: nat)), ''trace'')])"]
  by (simp add: machine_eval recovered_def)

text \<open>
  C3 as stated fails for a panic whose value is nil: the inner job has raised a fault,
  the invocation has returned normally, and the trace has no error-level record.
\<close>

theorem C3_counterexample:
  "EvEnd 0 (Panic None) \<in> set (trace nil_panic_run) \<and>
   finished (threads nil_panic_run ! 0) \<and>
   ctl (threads nil_panic_run ! 0) = Return Normal \<and>
   length (filter is_error_record (trace nil_panic_run)) \<noteq> 1 \<and>
   filter is_error_record (trace nil_panic_run) = []"
  by (simp add: nil_panic_run_def machine_eval recovered_def)

text \<open>
  C10. When the inner job panics with the nil value, the handler of Recover makes the
  invocation return normally and logs nothing. In general the handler adds a record to
  the trace exactly when the recovered value is not nil.
\<close>

theorem C10_nil_fault_not_logged:
  "(\<forall>t st. t < length (threads s) \<and> ctl (threads s ! t) = Return (Panic None) \<and>
      stack (threads s ! t) = DeferRecover lg # st \<longrightarrow>
      (\<exists>s'. step t s = Some s' \<and> ctl (threads s' ! t) = Return Normal \<and>
         stack (threads s' ! t) = st \<and> trace s' = trace s)) \<and>
   (\<forall>t out st s'. t < length (threads s) \<and> ctl (threads s ! t) = Return out \<and>
      stack (threads s ! t) = DeferRecover lg # st \<and> step t s = Some s' \<longrightarrow>
      (trace s' \<noteq> trace s) = (recovered out \<noteq> None) \<and>
      filter is_error_record (trace s') =
        filter is_error_record (trace s) @
        (case recovered out of
           None \<Rightarrow> []
         | Some r \<Rightarrow> [EvLog lg ErrorLevel panic_format
                        [ArgValue r, ArgStack (dump (threads s ! t))]])) \<and>
   (\<forall>d. let s1 = run [Step 0, Step 0, Step 0, Step 0]
                   (registered (Recover lg) Prim h now [(Panic None :: 'a outcome, d)]) in
      trace s1 = [EvCall 0 (RecoverJob lg Prim), EvCall 0 Prim, EvEnd 0 (Panic None)] \<and>
      ctl (threads s1 ! 0) = Return Normal \<and> finished (threads s1 ! 0))"
proof -
  have nil: "\<exists>s'. step t s = Some s' \<and> ctl (threads s' ! t) = Return Normal \<and>
         stack (threads s' ! t) = st \<and> trace s' = trace s"
    if "t < length (threads s)" "ctl (threads s ! t) = Return (Panic None)"
      "stack (threads s ! t) = DeferRecover lg # st" for t st
    using that by (simp add: step_def recovered_def)
  have only: "(trace s' \<noteq> trace s) = (recovered out \<noteq> None) \<and>
      filter is_error_record (trace s') =
        filter is_error_record (trace s) @
        (case recovered out of
           None \<Rightarrow> []
         | Some r \<Rightarrow> [EvLog lg ErrorLevel panic_format
                        [ArgValue r, ArgStack (dump (threads s ! t))]])"
    if "t < length (threads s)" "ctl (threads s ! t) = Return out"
      "stack (threads s ! t) = DeferRecover lg # st" "step t s = Some s'" for t out st s'
    using that by (auto simp: step_def split: option.splits)
  have whole: "let s1 = run [Step 0, Step 0, Step 0, Step 0]
                   (registered (Recover lg) Prim h now [(Panic None :: 'a outcome, d)]) in
      trace s1 = [EvCall 0 (RecoverJob lg Prim), EvCall 0 Prim, EvEnd 0 (Panic None)] \<and>
      ctl (threads s1 ! 0) = Return Normal \<and> finished (threads s1 ! 0)" for d
    by (simp add: machine_eval recovered_def)
  from nil only whole show ?thesis by blast
qed

theorem C10_witness:
  "let s = run [Step 0, Step 0, Step 0]
             (registered (Recover 0) Prim empty_store 0 [(Panic None :: unit outcome, '''')]) in
     ctl (threads s ! 0) = Return (Panic None) \<and>
     stack (threads s ! 0) = [DeferRecover 0] \<and>
     (\<exists>s'. step 0 s = Some s' \<and> ctl (threads s' ! 0) = Return Normal \<and>
        stack (threads s' ! 0) = [] \<and> trace s' = trace s)"
  using C10_nil_fault_not_logged [where lg = 0
      and s = "run [Step 0, Step 0, Step 0]
             (registered (Recover 0) Prim empty_store 0 [(Panic None :: unit outcome, '''')])"]
  by (simp add: machine_eval recovered_def)

end
